theory Spec2Isabelle
  imports Main "HOL-Library.Word"
begin

section \<open>The L2-atomics barrier of fastBarrierBGQ.hh\<close>

text \<open>
  The barrier keeps two 64-bit counters per barrier object, \<open>start\<close> and \<open>count\<close>, and one
  private handle per thread.  Every arrival increments \<open>count\<close> through the node's atomic
  load-and-increment; the arrival that brings \<open>count\<close> to the round's target stores the new
  \<open>start\<close>, on which the waiters spin.

  The embedding keeps the C types: \<open>uint64_t\<close> is \<open>64 word\<close> (addition wraps), the
  \<open>int eventNum\<close> is a \<open>32 word\<close> read as two's complement and converted to 64 bits by sign
  extension (\<open>scast\<close>), as the usual arithmetic conversions of \<open>h->localStart + eventNum\<close> do.
  Barrier objects live in a store indexed by their address, because a handle remembers the
  barrier it was initialised against while every operation is also passed a barrier pointer.
\<close>

subsection \<open>Data\<close>

type_synonym u64 = "64 word"
type_synonym int32 = "32 word"
type_synonym addr = nat

text \<open>\<open>L2_Barrier_t\<close>: the two counters (the padding has no content).\<close>

record L2_Barrier_t =
  start :: u64
  count :: u64

text \<open>
  Modelled from the spec: the value returned by \<open>__l2_op_tid_ptr(&b->count,
  L2_ATOMIC_OPCODE_LOAD_INCREMENT, tid)\<close> of the SPI header \<open>spi/include/l2/atomic.h\<close>, which
  is not among the sources.  The spec calls it "a bound reference to an atomic
  fetch-and-increment endpoint on the shared \<open>count\<close> field", "parameterized by the calling
  thread's hardware identity": the address of the barrier whose \<open>count\<close> it targets, and
  the thread id.
\<close>

record l2_inc_ptr =
  inc_target :: addr
  inc_tid :: "32 word"

definition l2_op_tid_ptr_LOAD_INCREMENT :: "addr \<Rightarrow> 32 word \<Rightarrow> l2_inc_ptr" where
  "l2_op_tid_ptr_LOAD_INCREMENT b tid = \<lparr>inc_target = b, inc_tid = tid\<rparr>"

text \<open>\<open>L2_BarrierHandle_t\<close>: the thread-private handle.\<close>

record L2_BarrierHandle_t =
  localStart :: u64
  localCountPtr :: l2_inc_ptr

text \<open>
  The shared memory: the barrier object at every address, and the sequence of stores made
  to \<open>start\<close> fields (barrier address and value stored), oldest first.  The sequence is what
  makes "this call wrote \<open>start\<close>" observable even when the value stored equals the old one.
\<close>

record L2_memory =
  barrier_at :: "addr \<Rightarrow> L2_Barrier_t"
  start_stores :: "(addr \<times> u64) list"

definition store_start :: "addr \<Rightarrow> u64 \<Rightarrow> L2_memory \<Rightarrow> L2_memory" where
  "store_start b v s =
     s\<lparr>barrier_at := (barrier_at s)(b := (barrier_at s b)\<lparr>start := v\<rparr>),
       start_stores := start_stores s @ [(b, v)]\<rparr>"

definition store_count :: "addr \<Rightarrow> u64 \<Rightarrow> L2_memory \<Rightarrow> L2_memory" where
  "store_count b v s = s\<lparr>barrier_at := (barrier_at s)(b := (barrier_at s b)\<lparr>count := v\<rparr>)\<rparr>"

text \<open>
  Modelled from the spec: a read through the encoded pointer (\<open>*(h->localCountPtr)\<close>) is
  the L2 load-and-increment of the SPI, not among the sources: it "atomically
  fetch-and-increments the shared \<open>count\<close>".  The read returns the value before the
  increment (the source adds one to obtain \<open>current\<close>); value and increment are one step.
\<close>

definition l2_load_increment :: "l2_inc_ptr \<Rightarrow> L2_memory \<Rightarrow> u64 \<times> L2_memory" where
  "l2_load_increment p s =
     (let v = count (barrier_at s (inc_target p))
      in (v, store_count (inc_target p) (v + 1) s))"

subsection \<open>Operations\<close>

text \<open>\<open>b->start = b->count = 0;\<close>\<close>

definition L2_BarrierWithSync_Init :: "addr \<Rightarrow> L2_memory \<Rightarrow> L2_memory" where
  "L2_BarrierWithSync_Init b s = store_start b 0 (store_count b 0 s)"

text \<open>
  \<open>Kernel_ProcessorThreadID()\<close> is a kernel call; its result is the parameter \<open>tid\<close>.  The
  shared memory is passed through, since the function does not store to it.
\<close>

definition L2_BarrierWithSync_InitInThread ::
  "32 word \<Rightarrow> addr \<Rightarrow> L2_BarrierHandle_t \<Rightarrow> L2_memory \<Rightarrow> L2_BarrierHandle_t \<times> L2_memory" where
  "L2_BarrierWithSync_InitInThread tid b h s =
     (let h1 = h\<lparr>localStart := 0\<rparr>;
          h2 = h1\<lparr>localCountPtr := l2_op_tid_ptr_LOAD_INCREMENT b tid\<rparr>
      in (h2, s))"

text \<open>
  The memory barrier \<open>__lwsync\<close> has no effect on a sequentially consistent memory.  The
  fetch-and-increment goes through the handle's pointer; the store to \<open>start\<close> goes through
  the barrier pointer \<open>b\<close>.
\<close>

definition L2_BarrierWithSync_Arrive ::
  "addr \<Rightarrow> L2_BarrierHandle_t \<Rightarrow> int32 \<Rightarrow> L2_memory \<Rightarrow> L2_BarrierHandle_t \<times> L2_memory" where
  "L2_BarrierWithSync_Arrive b h eventNum s =
     (let (cnt, s1) = l2_load_increment (localCountPtr h) s;
          current = cnt + 1;
          target = localStart h + scast eventNum
      in if current = target then (h, store_start b current s1) else (h, s1))"

text \<open>
  The spin loop \<open>while (b->start < target) ;\<close> reads the volatile \<open>start\<close> again in every
  iteration.  Between two reads the other threads run: \<open>env i\<close> is what they do to the shared
  memory between read \<open>i\<close> and read \<open>i + 1\<close> of the loop (the identity when nothing else
  runs).  The loop returns the memory of its last read; when no read ever finds
  \<open>start \<ge> target\<close> it does not return, and the value is \<open>None\<close>.
\<close>

partial_function (option) spin_start ::
  "addr \<Rightarrow> u64 \<Rightarrow> (nat \<Rightarrow> L2_memory \<Rightarrow> L2_memory) \<Rightarrow> nat \<Rightarrow> L2_memory \<Rightarrow> L2_memory option" where
  "spin_start b target env i s =
     (if start (barrier_at s b) < target then spin_start b target env (Suc i) (env i s)
      else Some s)"

text \<open>
  The handle is private memory of the caller: its new value does not depend on the wait and
  is returned beside the result of the loop.  (\<open>__isync\<close> after the loop has no effect on
  the state.)
\<close>

definition L2_BarrierWithSync_WaitAndReset ::
  "addr \<Rightarrow> L2_BarrierHandle_t \<Rightarrow> int32 \<Rightarrow> (nat \<Rightarrow> L2_memory \<Rightarrow> L2_memory) \<Rightarrow> L2_memory
     \<Rightarrow> L2_BarrierHandle_t \<times> L2_memory option" where
  "L2_BarrierWithSync_WaitAndReset b h eventNum env s =
     (let target = localStart h + scast eventNum;
          h1 = h\<lparr>localStart := target\<rparr>
      in (h1, spin_start b target env 0 s))"

definition L2_BarrierWithSync_Reset ::
  "addr \<Rightarrow> L2_BarrierHandle_t \<Rightarrow> int32 \<Rightarrow> L2_memory \<Rightarrow> L2_BarrierHandle_t \<times> L2_memory" where
  "L2_BarrierWithSync_Reset b h eventNum s =
     (let target = localStart h + scast eventNum;
          h1 = h\<lparr>localStart := target\<rparr>
      in (h1, s))"

definition L2_BarrierWithSync_Barrier ::
  "addr \<Rightarrow> L2_BarrierHandle_t \<Rightarrow> int32 \<Rightarrow> (nat \<Rightarrow> L2_memory \<Rightarrow> L2_memory) \<Rightarrow> L2_memory
     \<Rightarrow> L2_BarrierHandle_t \<times> L2_memory option" where
  "L2_BarrierWithSync_Barrier b h eventNum env s =
     (let (h1, s1) = L2_BarrierWithSync_Arrive b h eventNum s
      in L2_BarrierWithSync_WaitAndReset b h1 eventNum env s1)"

subsection \<open>Notions used by the properties\<close>

text \<open>A handle belongs to the barrier at \<open>b\<close> when its pointer targets that barrier's \<open>count\<close>.\<close>

definition bound_to :: "L2_BarrierHandle_t \<Rightarrow> addr \<Rightarrow> bool" where
  "bound_to h b = (inc_target (localCountPtr h) = b)"

text \<open>The memory found by read number \<open>k\<close> (from 0) of a spin loop entered in memory \<open>s\<close>
  when the interference steps start at index \<open>i\<close>.\<close>

fun observed_from :: "(nat \<Rightarrow> L2_memory \<Rightarrow> L2_memory) \<Rightarrow> nat \<Rightarrow> L2_memory \<Rightarrow> nat \<Rightarrow> L2_memory" where
  "observed_from env i s 0 = s"
| "observed_from env i s (Suc k) = observed_from env (Suc i) (env i s) k"

definition observed :: "(nat \<Rightarrow> L2_memory \<Rightarrow> L2_memory) \<Rightarrow> L2_memory \<Rightarrow> nat \<Rightarrow> L2_memory" where
  "observed env s k = observed_from env 0 s k"

text \<open>
  The composite as the specification words it: \<open>Arrive(eventNum)\<close> immediately followed by
  \<open>WaitAndReset(eventNum)\<close> on the same arguments, the second call starting from the handle
  and the memory the first one leaves.
\<close>

definition Arrive_then_WaitAndReset ::
  "addr \<Rightarrow> L2_BarrierHandle_t \<Rightarrow> int32 \<Rightarrow> (nat \<Rightarrow> L2_memory \<Rightarrow> L2_memory) \<Rightarrow> L2_memory
     \<Rightarrow> L2_BarrierHandle_t \<times> L2_memory option" where
  "Arrive_then_WaitAndReset b h eventNum env s =
     L2_BarrierWithSync_WaitAndReset b
       (fst (L2_BarrierWithSync_Arrive b h eventNum s)) eventNum env
       (snd (L2_BarrierWithSync_Arrive b h eventNum s))"

text \<open>The invariant of the shared counters of the barrier at \<open>b\<close>.\<close>

definition count_ge_start :: "L2_memory \<Rightarrow> addr \<Rightarrow> bool" where
  "count_ge_start s b = (start (barrier_at s b) \<le> count (barrier_at s b))"

text \<open>The arrivals of one round, one call after the other, in the order of the list of the
  callers' handles.\<close>

fun Arrive_all :: "addr \<Rightarrow> int32 \<Rightarrow> L2_BarrierHandle_t list \<Rightarrow> L2_memory \<Rightarrow> L2_memory" where
  "Arrive_all b eventNum [] s = s"
| "Arrive_all b eventNum (h # hs) s =
     Arrive_all b eventNum hs (snd (L2_BarrierWithSync_Arrive b h eventNum s))"

text \<open>Per-thread initialisation by several threads, each with its thread id and its handle.\<close>

fun InitInThread_all ::
  "addr \<Rightarrow> (32 word \<times> L2_BarrierHandle_t) list \<Rightarrow> L2_memory \<Rightarrow> L2_BarrierHandle_t list \<times> L2_memory" where
  "InitInThread_all b [] s = ([], s)"
| "InitInThread_all b ((tid, h) # ths) s =
     (let (h1, s1) = L2_BarrierWithSync_InitInThread tid b h s;
          (hs, s2) = InitInThread_all b ths s1
      in (h1 # hs, s2))"

text \<open>Repeated arrivals of one thread through the same handle.\<close>

fun Arrive_times ::
  "nat \<Rightarrow> addr \<Rightarrow> L2_BarrierHandle_t \<Rightarrow> int32 \<Rightarrow> L2_memory \<Rightarrow> L2_BarrierHandle_t \<times> L2_memory" where
  "Arrive_times 0 b h eventNum s = (h, s)"
| "Arrive_times (Suc k) b h eventNum s =
     (let (h1, s1) = L2_BarrierWithSync_Arrive b h eventNum s in Arrive_times k b h1 eventNum s1)"

subsection \<open>Sequential interleavings of calls\<close>

text \<open>
  Threads are numbered; each has its own handle.  An interleaving is a list of calls, each
  with the number of the calling thread, executed one after the other on the barrier at
  \<open>b\<close>.  A call is one step here, so a waiting call takes its place in the list at the
  moment it returns: nothing else runs inside it (the interference is the identity), and
  where it would have to wait the list is not an execution and the result is \<open>None\<close>.  A
  \<open>Barrier\<close> call that has to wait appears as its \<open>Arrive\<close> and, later, its \<open>WaitAndReset\<close>.
\<close>

datatype call =
  Call_InitInThread "32 word"
| Call_Arrive int32
| Call_Reset int32
| Call_WaitAndReset int32
| Call_Barrier int32

type_synonym handles = "nat \<Rightarrow> L2_BarrierHandle_t"

fun exec_call :: "addr \<Rightarrow> nat \<times> call \<Rightarrow> handles \<times> L2_memory \<Rightarrow> (handles \<times> L2_memory) option" where
  "exec_call b (th, Call_InitInThread tid) (hs, s) =
     (let (h1, s1) = L2_BarrierWithSync_InitInThread tid b (hs th) s in Some (hs(th := h1), s1))"
| "exec_call b (th, Call_Arrive n) (hs, s) =
     (let (h1, s1) = L2_BarrierWithSync_Arrive b (hs th) n s in Some (hs(th := h1), s1))"
| "exec_call b (th, Call_Reset n) (hs, s) =
     (let (h1, s1) = L2_BarrierWithSync_Reset b (hs th) n s in Some (hs(th := h1), s1))"
| "exec_call b (th, Call_WaitAndReset n) (hs, s) =
     (case L2_BarrierWithSync_WaitAndReset b (hs th) n (\<lambda>i. id) s of
        (h1, None) \<Rightarrow> None
      | (h1, Some s1) \<Rightarrow> Some (hs(th := h1), s1))"
| "exec_call b (th, Call_Barrier n) (hs, s) =
     (case L2_BarrierWithSync_Barrier b (hs th) n (\<lambda>i. id) s of
        (h1, None) \<Rightarrow> None
      | (h1, Some s1) \<Rightarrow> Some (hs(th := h1), s1))"

fun run_calls ::
  "addr \<Rightarrow> (nat \<times> call) list \<Rightarrow> handles \<times> L2_memory \<Rightarrow> (handles \<times> L2_memory) option" where
  "run_calls b [] st = Some st"
| "run_calls b (c # cs) st =
     (case exec_call b c st of None \<Rightarrow> None | Some st1 \<Rightarrow> run_calls b cs st1)"

text \<open>The calls that close a round for their thread, and how many of them thread \<open>th\<close>
  makes in an interleaving.\<close>

fun closes_round :: "call \<Rightarrow> bool" where
  "closes_round (Call_Reset n) = True"
| "closes_round (Call_WaitAndReset n) = True"
| "closes_round (Call_Barrier n) = True"
| "closes_round c = False"

fun waits :: "call \<Rightarrow> bool" where
  "waits (Call_WaitAndReset n) = True"
| "waits (Call_Barrier n) = True"
| "waits c = False"

definition rounds_of :: "nat \<Rightarrow> (nat \<times> call) list \<Rightarrow> nat" where
  "rounds_of th cs = length (filter (\<lambda>(t, c). t = th \<and> closes_round c) cs)"

text \<open>Thread \<open>th\<close> makes only round calls, all with round size \<open>n\<close> (in particular it does not
  initialise its handle again).\<close>

definition uses_round_size :: "nat \<Rightarrow> int32 \<Rightarrow> (nat \<times> call) list \<Rightarrow> bool" where
  "uses_round_size th n cs =
     list_all (\<lambda>(t, c). t \<noteq> th \<or> c = Call_Arrive n \<or> c = Call_Reset n \<or>
                        c = Call_WaitAndReset n \<or> c = Call_Barrier n) cs"

text \<open>
  The calls of an interleaving go through handles of the barrier at \<open>b\<close>: at each call
  other than \<open>InitInThread\<close>, the caller's handle belongs to \<open>b\<close>, from the start or by an
  earlier \<open>InitInThread\<close> of that thread in the interleaving.
\<close>

fun handles_ready :: "addr \<Rightarrow> handles \<Rightarrow> (nat \<times> call) list \<Rightarrow> bool" where
  "handles_ready b hs [] = True"
| "handles_ready b hs ((t, Call_InitInThread tid) # cs) =
     handles_ready b (hs(t := (hs t)\<lparr>localCountPtr := l2_op_tid_ptr_LOAD_INCREMENT b tid\<rparr>)) cs"
| "handles_ready b hs ((t, c) # cs) = (bound_to (hs t) b \<and> handles_ready b hs cs)"

text \<open>
  What has been stored to \<open>start\<close> fields between a memory \<open>s\<close> and a later memory \<open>s'\<close>:
  the stores logged in \<open>s\<close> are still the beginning of the log, and every store made since
  is to the barrier at \<open>b\<close> and of a value that \<open>count\<close> has reached in \<open>s'\<close>.
\<close>

definition stores_reached :: "addr \<Rightarrow> L2_memory \<Rightarrow> L2_memory \<Rightarrow> bool" where
  "stores_reached b s s' =
     (take (length (start_stores s)) (start_stores s') = start_stores s \<and>
      list_all (\<lambda>(a, v). a = b \<and> v \<le> count (barrier_at s' b))
        (drop (length (start_stores s)) (start_stores s')))"

text \<open>Whether the handle of thread \<open>th\<close> has been passed by \<open>start\<close> of the barrier at \<open>b\<close>.\<close>

definition start_ge_localStart :: "addr \<Rightarrow> nat \<Rightarrow> handles \<times> L2_memory \<Rightarrow> bool" where
  "start_ge_localStart b th st = (localStart (fst st th) \<le> start (barrier_at (snd st) b))"

text \<open>
  One round of the header's typical sequence with two producers (threads 0 and 1, each
  \<open>Arrive\<close> then \<open>Reset\<close>) and one consumer (thread 2, \<open>WaitAndReset\<close>), and \<open>R\<close> such rounds
  after the three per-thread initialisations.
\<close>

definition typical_round :: "(nat \<times> call) list" where
  "typical_round =
     [(0, Call_Arrive 2), (0, Call_Reset 2), (1, Call_Arrive 2), (1, Call_Reset 2),
      (2, Call_WaitAndReset 2)]"

definition typical_rounds :: "nat \<Rightarrow> (nat \<times> call) list" where
  "typical_rounds R =
     [(0, Call_InitInThread 0), (1, Call_InitInThread 1), (2, Call_InitInThread 2)]
     @ concat (replicate R typical_round)"

text \<open>The three threads of the typical sequence stand at the beginning of a round: their
  handles belong to the barrier at \<open>b\<close> and \<open>localStart\<close>, \<open>count\<close> and \<open>start\<close> all equal \<open>c\<close>.\<close>

definition round_begins :: "addr \<Rightarrow> u64 \<Rightarrow> handles \<times> L2_memory \<Rightarrow> bool" where
  "round_begins b c st =
     (bound_to (fst st 0) b \<and> bound_to (fst st 1) b \<and> bound_to (fst st 2) b \<and>
      localStart (fst st 0) = c \<and> localStart (fst st 1) = c \<and> localStart (fst st 2) = c \<and>
      count (barrier_at (snd st) b) = c \<and> start (barrier_at (snd st) b) = c)"

subsection \<open>Concrete memories and handles\<close>

text \<open>A memory that has not been initialised (every object holds the same arbitrary
  values and no store to a \<open>start\<close> field has been made), and a handle that has not been
  initialised (its pointer targets some other object).\<close>

definition blank_memory :: L2_memory where
  "blank_memory = \<lparr>barrier_at = (\<lambda>a. \<lparr>start = 7, count = 3\<rparr>), start_stores = []\<rparr>"

definition raw_handle :: L2_BarrierHandle_t where
  "raw_handle = \<lparr>localStart = 9, localCountPtr = \<lparr>inc_target = 5, inc_tid = 0\<rparr>\<rparr>"

text \<open>The handle of thread \<open>tid\<close> for the barrier at \<open>b\<close>, as \<open>InitInThread\<close> leaves it.\<close>

definition fresh_handle :: "addr \<Rightarrow> 32 word \<Rightarrow> L2_BarrierHandle_t" where
  "fresh_handle b tid = fst (L2_BarrierWithSync_InitInThread tid b raw_handle blank_memory)"

text \<open>Another thread's single arrival (round size \<open>n\<close>), happening between reads \<open>k\<close> and
  \<open>k + 1\<close> of a spin loop.\<close>

definition arrival_at :: "nat \<Rightarrow> addr \<Rightarrow> L2_BarrierHandle_t \<Rightarrow> int32 \<Rightarrow> nat \<Rightarrow> L2_memory \<Rightarrow> L2_memory" where
  "arrival_at k b h n i s = (if i = k then snd (L2_BarrierWithSync_Arrive b h n s) else s)"

section \<open>The spin loop\<close>

text \<open>The loop returns the memory of its first read that finds \<open>start \<ge> target\<close>, and
  does not return when there is no such read.\<close>

lemma spin_Some_obs:
  assumes "spin_start b t env i s = Some s'"
  shows "\<exists>k. s' = observed_from env i s k \<and> t \<le> start (barrier_at s' b) \<and>
         (\<forall>j<k. start (barrier_at (observed_from env i s j) b) < t)"
proof (rule spin_start.raw_induct[where P = "\<lambda>b t env i s s'.
         \<exists>k. s' = observed_from env i s k \<and> t \<le> start (barrier_at s' b) \<and>
         (\<forall>j<k. start (barrier_at (observed_from env i s j) b) < t)", OF _ assms], goal_cases)
  case (1 f b t env i s s')
  show ?case
  proof (cases "start (barrier_at s b) < t")
    case False
    with 1(2) have "s' = s" by simp
    with False show ?thesis by (intro exI[of _ 0]) (simp add: not_less)
  next
    case True
    with 1(2) have "f b t env (Suc i) (env i s) = Some s'" by simp
    from 1(1)[OF this] obtain k where k: "s' = observed_from env (Suc i) (env i s) k"
      "t \<le> start (barrier_at s' b)" "\<forall>j<k. start (barrier_at (observed_from env (Suc i) (env i s) j) b) < t" by blast
    show ?thesis
    proof (intro exI[of _ "Suc k"] conjI allI impI)
      fix j assume "j < Suc k"
      then show "start (barrier_at (observed_from env i s j) b) < t"
        using True k(3) by (cases j) auto
    qed (use k in simp_all)
  qed
qed

lemma spin_reaches:
  "t \<le> start (barrier_at (observed_from env i s k) b) \<Longrightarrow>
   \<forall>j<k. start (barrier_at (observed_from env i s j) b) < t \<Longrightarrow>
   spin_start b t env i s = Some (observed_from env i s k)"
proof (induction k arbitrary: i s)
  case 0
  then have "\<not> start (barrier_at s b) < t" by (simp add: not_less)
  then show ?case by (subst spin_start.simps) simp
next
  case (Suc k)
  from Suc.prems(2) have lt: "start (barrier_at s b) < t" by (auto dest: spec[of _ 0])
  have "\<forall>j<k. start (barrier_at (observed_from env (Suc i) (env i s) j) b) < t"
  proof (intro allI impI)
    fix j assume "j < k"
    then have "Suc j < Suc k" by simp
    with Suc.prems(2) have "start (barrier_at (observed_from env i s (Suc j)) b) < t" by blast
    then show "start (barrier_at (observed_from env (Suc i) (env i s) j) b) < t" by simp
  qed
  with Suc.IH[of "Suc i" "env i s"] Suc.prems(1)
  have "spin_start b t env (Suc i) (env i s) = Some (observed_from env (Suc i) (env i s) k)" by simp
  with lt show ?case by (subst spin_start.simps) simp
qed

lemma spin_None_iff:
  "spin_start b t env i s = None \<longleftrightarrow> (\<forall>k. start (barrier_at (observed_from env i s k) b) < t)"
proof
  assume N: "spin_start b t env i s = None"
  show "\<forall>k. start (barrier_at (observed_from env i s k) b) < t"
  proof (rule ccontr)
    assume "\<not> ?thesis"
    then have ex: "\<exists>k. t \<le> start (barrier_at (observed_from env i s k) b)" by (simp add: not_less)
    define k where "k = (LEAST k. t \<le> start (barrier_at (observed_from env i s k) b))"
    have a: "t \<le> start (barrier_at (observed_from env i s k) b)"
      unfolding k_def using ex by (rule LeastI_ex)
    have b: "\<forall>j<k. start (barrier_at (observed_from env i s j) b) < t"
      unfolding k_def using not_less_Least by (fastforce simp: not_le)
    from spin_reaches[OF a b] N show False by simp
  qed
next
  assume A: "\<forall>k. start (barrier_at (observed_from env i s k) b) < t"
  show "spin_start b t env i s = None"
  proof (cases "spin_start b t env i s")
    case (Some s')
    from spin_Some_obs[OF this] A show ?thesis by (auto simp: not_less[symmetric])
  qed simp
qed

section \<open>Single calls\<close>

lemma Arrive_handle: "fst (L2_BarrierWithSync_Arrive b h n s) = h"
  by (simp add: L2_BarrierWithSync_Arrive_def Let_def split: prod.split)

lemma Arrive_memory:
  "snd (L2_BarrierWithSync_Arrive b h n s) =
     (let a = inc_target (localCountPtr h);
          current = count (barrier_at s a) + 1;
          s1 = store_count a current s
      in if current = localStart h + scast n then store_start b current s1 else s1)"
  by (simp add: L2_BarrierWithSync_Arrive_def l2_load_increment_def Let_def)

lemma Arrive_bound_count:
  "bound_to h b \<Longrightarrow>
   count (barrier_at (snd (L2_BarrierWithSync_Arrive b h n s)) b) = count (barrier_at s b) + 1"
  by (simp add: Arrive_memory bound_to_def Let_def store_count_def store_start_def)

lemma Arrive_bound_start:
  "bound_to h b \<Longrightarrow>
   start (barrier_at (snd (L2_BarrierWithSync_Arrive b h n s)) b) =
     (if count (barrier_at s b) + 1 = localStart h + scast n then count (barrier_at s b) + 1
      else start (barrier_at s b))"
  by (simp add: Arrive_memory bound_to_def Let_def store_count_def store_start_def)

lemma Arrive_stores:
  "start_stores (snd (L2_BarrierWithSync_Arrive b h n s)) =
     start_stores s @
     (if count (barrier_at s (inc_target (localCountPtr h))) + 1 = localStart h + scast n
      then [(b, count (barrier_at s (inc_target (localCountPtr h))) + 1)] else [])"
  by (simp add: Arrive_memory Let_def store_count_def store_start_def)

lemma Arrive_bound_stores:
  "bound_to h b \<Longrightarrow>
   start_stores (snd (L2_BarrierWithSync_Arrive b h n s)) =
     start_stores s @
     (if count (barrier_at s b) + 1 = localStart h + scast n
      then [(b, count (barrier_at s b) + 1)] else [])"
  using Arrive_stores[of b h n s] by (simp add: bound_to_def)

lemma Arrive_bound_other:
  "bound_to h b \<Longrightarrow> a \<noteq> b \<Longrightarrow>
   barrier_at (snd (L2_BarrierWithSync_Arrive b h n s)) a = barrier_at s a"
  by (simp add: Arrive_memory bound_to_def Let_def store_count_def store_start_def)

lemma fresh_handle_simps:
  "localStart (fresh_handle b tid) = 0" "bound_to (fresh_handle b tid) b"
  by (simp_all add: fresh_handle_def L2_BarrierWithSync_InitInThread_def Let_def bound_to_def
        l2_op_tid_ptr_LOAD_INCREMENT_def)

text \<open>
  Claim C1.  For a handle that belongs to the barrier at \<open>b\<close>, \<open>Arrive(b, h, eventNum)\<close>
  increments \<open>b.count\<close> by exactly one, in the single step of the load-and-increment.  With
  \<open>current\<close> the value of \<open>count\<close> after the increment, it stores \<open>current\<close> to \<open>b.start\<close>
  exactly when \<open>current = localStart + eventNum\<close>, and otherwise makes no store to \<open>start\<close>
  and leaves its value as it was.
\<close>

theorem Arrive_counts_and_publishes:
  assumes "bound_to h b"
  shows "count (barrier_at (snd (L2_BarrierWithSync_Arrive b h eventNum s)) b)
           = count (barrier_at s b) + 1 \<and>
         start (barrier_at (snd (L2_BarrierWithSync_Arrive b h eventNum s)) b)
           = (if count (barrier_at s b) + 1 = localStart h + scast eventNum
              then count (barrier_at s b) + 1 else start (barrier_at s b)) \<and>
         start_stores (snd (L2_BarrierWithSync_Arrive b h eventNum s))
           = start_stores s @
             (if count (barrier_at s b) + 1 = localStart h + scast eventNum
              then [(b, count (barrier_at s b) + 1)] else [])"
  using assms by (simp only: Arrive_bound_count Arrive_bound_start Arrive_bound_stores simp_thms)

lemma Init_simps:
  "barrier_at (L2_BarrierWithSync_Init b s) b = \<lparr>start = 0, count = 0\<rparr>"
  "start_stores (L2_BarrierWithSync_Init b s) = start_stores s @ [(b, 0)]"
  by (simp_all add: L2_BarrierWithSync_Init_def store_start_def store_count_def)

theorem Arrive_counts_and_publishes_witness:
  "bound_to (fresh_handle 0 0) 0 \<and>
   count (barrier_at (snd (L2_BarrierWithSync_Arrive 0 (fresh_handle 0 0) 1
                              (L2_BarrierWithSync_Init 0 blank_memory))) 0) = 1 \<and>
   start (barrier_at (snd (L2_BarrierWithSync_Arrive 0 (fresh_handle 0 0) 1
                              (L2_BarrierWithSync_Init 0 blank_memory))) 0) = 1 \<and>
   start_stores (snd (L2_BarrierWithSync_Arrive 0 (fresh_handle 0 0) 1
                              (L2_BarrierWithSync_Init 0 blank_memory))) = [(0, 0), (0, 1)] \<and>
   count (barrier_at (snd (L2_BarrierWithSync_Arrive 0 (fresh_handle 0 0) 4
                              (L2_BarrierWithSync_Init 0 blank_memory))) 0) = 1 \<and>
   start (barrier_at (snd (L2_BarrierWithSync_Arrive 0 (fresh_handle 0 0) 4
                              (L2_BarrierWithSync_Init 0 blank_memory))) 0) = 0 \<and>
   start_stores (snd (L2_BarrierWithSync_Arrive 0 (fresh_handle 0 0) 4
                              (L2_BarrierWithSync_Init 0 blank_memory))) = [(0, 0)]"
  using Arrive_counts_and_publishes[of "fresh_handle 0 0" 0 1 "L2_BarrierWithSync_Init 0 blank_memory"]
        Arrive_counts_and_publishes[of "fresh_handle 0 0" 0 4 "L2_BarrierWithSync_Init 0 blank_memory"]
  by (simp add: fresh_handle_simps Init_simps blank_memory_def)

lemma Arrive_times_handle: "fst (Arrive_times k b h n s) = h"
proof (induction k arbitrary: s)
  case 0
  show ?case by simp
next
  case (Suc k)
  have "fst (Arrive_times (Suc k) b h n s)
          = fst (Arrive_times k b (fst (L2_BarrierWithSync_Arrive b h n s)) n
                   (snd (L2_BarrierWithSync_Arrive b h n s)))"
    by (simp add: case_prod_unfold Let_def)
  then show ?case by (simp add: Arrive_handle Suc.IH)
qed

text \<open>
  Claim C9.  \<open>Arrive(b, h, eventNum)\<close> leaves the handle, and so \<open>localStart\<close>, as it was,
  for every memory, handle and round size, and however many times the thread arrives.
  Moving \<open>localStart\<close> to the next round boundary is left to \<open>Reset\<close> and \<open>WaitAndReset\<close>,
  which add \<open>eventNum\<close> to it.
\<close>

theorem Arrive_keeps_handle:
  "fst (L2_BarrierWithSync_Arrive b h eventNum s) = h \<and>
   localStart (fst (L2_BarrierWithSync_Arrive b h eventNum s)) = localStart h \<and>
   fst (Arrive_times k b h eventNum s) = h \<and>
   localStart (fst (L2_BarrierWithSync_Reset b h eventNum s)) = localStart h + scast eventNum \<and>
   localStart (fst (L2_BarrierWithSync_WaitAndReset b h eventNum env s))
     = localStart h + scast eventNum"
  by (simp add: Arrive_handle Arrive_times_handle L2_BarrierWithSync_Reset_def
        L2_BarrierWithSync_WaitAndReset_def Let_def)

text \<open>
  Claim C6.  \<open>Reset(b, h, eventNum)\<close> sets \<open>localStart\<close> to its old value plus \<open>eventNum\<close>,
  returns without a loop (it is a total function of its arguments), and returns the shared
  memory it was given: \<open>b.start\<close> and \<open>b.count\<close> are unchanged and no store is made.
\<close>

theorem Reset_advances_handle_only:
  "localStart (fst (L2_BarrierWithSync_Reset b h eventNum s)) = localStart h + scast eventNum \<and>
   localCountPtr (fst (L2_BarrierWithSync_Reset b h eventNum s)) = localCountPtr h \<and>
   snd (L2_BarrierWithSync_Reset b h eventNum s) = s \<and>
   start (barrier_at (snd (L2_BarrierWithSync_Reset b h eventNum s)) b) = start (barrier_at s b) \<and>
   count (barrier_at (snd (L2_BarrierWithSync_Reset b h eventNum s)) b) = count (barrier_at s b)"
  by (simp add: L2_BarrierWithSync_Reset_def Let_def)

lemma InitInThread_memory: "snd (L2_BarrierWithSync_InitInThread tid b h s) = s"
  by (simp add: L2_BarrierWithSync_InitInThread_def Let_def)

lemma InitInThread_handle:
  "fst (L2_BarrierWithSync_InitInThread tid b h s)
     = \<lparr>localStart = 0, localCountPtr = \<lparr>inc_target = b, inc_tid = tid\<rparr>\<rparr>"
  by (simp add: L2_BarrierWithSync_InitInThread_def Let_def l2_op_tid_ptr_LOAD_INCREMENT_def)

lemma InitInThread_all_memory: "snd (InitInThread_all b ths s) = s"
proof (induction ths arbitrary: s)
  case Nil
  show ?case by simp
next
  case (Cons p ths)
  obtain tid h where p: "p = (tid, h)" by (cases p)
  show ?case
    using Cons.IH[of "snd (L2_BarrierWithSync_InitInThread tid b h s)"]
    by (simp add: p case_prod_unfold Let_def InitInThread_memory)
qed

text \<open>
  Claim C10.  \<open>InitInThread(b, h)\<close> sets \<open>localStart = 0\<close> and binds the handle's pointer to
  the \<open>count\<close> of the barrier at \<open>b\<close> for the calling thread, and returns the shared memory
  it was given: \<open>b.start\<close> and \<open>b.count\<close> are unchanged.  Hence the initialisations of any
  number of threads, in any order after \<open>Init\<close>, leave the memory as \<open>Init\<close> left it.
\<close>

theorem InitInThread_binds_handle_only:
  "localStart (fst (L2_BarrierWithSync_InitInThread tid b h s)) = 0 \<and>
   bound_to (fst (L2_BarrierWithSync_InitInThread tid b h s)) b \<and>
   inc_tid (localCountPtr (fst (L2_BarrierWithSync_InitInThread tid b h s))) = tid \<and>
   snd (L2_BarrierWithSync_InitInThread tid b h s) = s \<and>
   start (barrier_at (snd (L2_BarrierWithSync_InitInThread tid b h s)) b) = start (barrier_at s b) \<and>
   count (barrier_at (snd (L2_BarrierWithSync_InitInThread tid b h s)) b) = count (barrier_at s b) \<and>
   snd (InitInThread_all b ths (L2_BarrierWithSync_Init b s)) = L2_BarrierWithSync_Init b s"
  by (simp add: InitInThread_memory InitInThread_handle InitInThread_all_memory bound_to_def)

text \<open>
  Claim C5.  \<open>Barrier(b, h, eventNum)\<close> is \<open>Arrive(b, h, eventNum)\<close> immediately followed by
  \<open>WaitAndReset(b, h, eventNum)\<close>: under every interference the two have the same final
  handle and the same result of the wait, which is the same final shared memory when they
  return and \<open>None\<close> for both when they wait for ever.
\<close>

theorem Barrier_is_Arrive_then_WaitAndReset:
  "L2_BarrierWithSync_Barrier b h eventNum env s = Arrive_then_WaitAndReset b h eventNum env s \<and>
   fst (L2_BarrierWithSync_Barrier b h eventNum env s)
     = fst (L2_BarrierWithSync_WaitAndReset b h eventNum env
              (snd (L2_BarrierWithSync_Arrive b h eventNum s))) \<and>
   snd (L2_BarrierWithSync_Barrier b h eventNum env s)
     = snd (L2_BarrierWithSync_WaitAndReset b h eventNum env
              (snd (L2_BarrierWithSync_Arrive b h eventNum s)))"
  by (simp add: L2_BarrierWithSync_Barrier_def Arrive_then_WaitAndReset_def case_prod_unfold
        Arrive_handle)

section \<open>Waiting\<close>

lemma observed_from_id: "observed_from (\<lambda>i. id) i s k = s"
  by (induction k arbitrary: i) simp_all

lemma spin_start_alone:
  "spin_start b t (\<lambda>i. id) i s = (if start (barrier_at s b) < t then None else Some s)"
proof (cases "start (barrier_at s b) < t")
  case True
  then have "\<forall>k. start (barrier_at (observed_from (\<lambda>i. id) i s k) b) < t"
    by (simp add: observed_from_id)
  then have "spin_start b t (\<lambda>i. id) i s = None" by (rule spin_None_iff[THEN iffD2])
  with True show ?thesis by simp
next
  case False
  then show ?thesis by (subst spin_start.simps) simp
qed

lemma WaitAndReset_handle:
  "fst (L2_BarrierWithSync_WaitAndReset b h n env s) = h\<lparr>localStart := localStart h + scast n\<rparr>"
  by (simp add: L2_BarrierWithSync_WaitAndReset_def Let_def)

lemma WaitAndReset_result:
  "snd (L2_BarrierWithSync_WaitAndReset b h n env s) = spin_start b (localStart h + scast n) env 0 s"
  by (simp add: L2_BarrierWithSync_WaitAndReset_def Let_def)

text \<open>A worked round of two arrivals: the waiting thread has arrived, the other thread
  arrives between the third and the fourth read of the loop.\<close>

lemmas example_eval =
  Arrive_memory Let_def store_start_def store_count_def L2_BarrierWithSync_Init_def
  blank_memory_def fresh_handle_def L2_BarrierWithSync_InitInThread_def
  l2_op_tid_ptr_LOAD_INCREMENT_def raw_handle_def arrival_at_def

lemma example_wait:
  "spin_start 0 2 (arrival_at 2 0 (fresh_handle 0 1) 2) 0
     (snd (L2_BarrierWithSync_Arrive 0 (fresh_handle 0 0) 2 (L2_BarrierWithSync_Init 0 blank_memory)))
   = Some \<lparr>barrier_at = (\<lambda>a. \<lparr>start = 7, count = 3\<rparr>)(0 := \<lparr>start = 2, count = 2\<rparr>),
            start_stores = [(0, 0), (0, 2)]\<rparr>"
  by (simp add: spin_start.simps example_eval)

lemma example_observed:
  "observed (arrival_at 2 0 (fresh_handle 0 1) 2)
     (snd (L2_BarrierWithSync_Arrive 0 (fresh_handle 0 0) 2 (L2_BarrierWithSync_Init 0 blank_memory))) 3
   = \<lparr>barrier_at = (\<lambda>a. \<lparr>start = 7, count = 3\<rparr>)(0 := \<lparr>start = 2, count = 2\<rparr>),
            start_stores = [(0, 0), (0, 2)]\<rparr>"
  by (simp add: observed_def numeral_3_eq_3 example_eval)

lemma example_alone:
  "start (barrier_at (snd (L2_BarrierWithSync_Arrive 0 (fresh_handle 0 0) 2
                             (L2_BarrierWithSync_Init 0 blank_memory))) 0) = 0"
  by (simp add: example_eval)

text \<open>
  Claim C3.  \<open>WaitAndReset(b, h, eventNum)\<close> computes its target from the old \<open>localStart\<close>
  and stores it as the new \<open>localStart\<close> whatever the wait then does.  It goes on reading for
  as long as its reads find \<open>b.start < target\<close>: when it returns, \<open>b.start \<ge> target\<close> holds in
  the memory it returns, which is the memory of its first read that found it so; when it
  does not return, every read found \<open>b.start < target\<close>.
\<close>

theorem WaitAndReset_contract:
  "fst (L2_BarrierWithSync_WaitAndReset b h eventNum env s)
     = h\<lparr>localStart := localStart h + scast eventNum\<rparr> \<and>
   (case snd (L2_BarrierWithSync_WaitAndReset b h eventNum env s) of
      None \<Rightarrow> \<forall>k. start (barrier_at (observed env s k) b) < localStart h + scast eventNum
    | Some s' \<Rightarrow>
        localStart h + scast eventNum \<le> start (barrier_at s' b) \<and>
        (\<exists>k. s' = observed env s k \<and>
             (\<forall>j<k. start (barrier_at (observed env s j) b) < localStart h + scast eventNum)))"
proof (cases "spin_start b (localStart h + scast eventNum) env 0 s")
  case None
  then show ?thesis
    by (simp add: WaitAndReset_handle WaitAndReset_result observed_def spin_None_iff[symmetric])
next
  case (Some s')
  from spin_Some_obs[OF Some] Some show ?thesis
    by (simp add: WaitAndReset_handle WaitAndReset_result observed_def) blast
qed

theorem WaitAndReset_contract_witness:
  "localStart (fst (L2_BarrierWithSync_WaitAndReset 0 (fresh_handle 0 0) 2
       (arrival_at 2 0 (fresh_handle 0 1) 2)
       (snd (L2_BarrierWithSync_Arrive 0 (fresh_handle 0 0) 2
              (L2_BarrierWithSync_Init 0 blank_memory))))) = 2 \<and>
   (\<exists>s'. snd (L2_BarrierWithSync_WaitAndReset 0 (fresh_handle 0 0) 2
       (arrival_at 2 0 (fresh_handle 0 1) 2)
       (snd (L2_BarrierWithSync_Arrive 0 (fresh_handle 0 0) 2
              (L2_BarrierWithSync_Init 0 blank_memory)))) = Some s' \<and>
        2 \<le> start (barrier_at s' 0) \<and>
        start_stores s' = [(0, 0), (0, 2)])"
proof -
  let ?s = "snd (L2_BarrierWithSync_Arrive 0 (fresh_handle 0 0) 2
              (L2_BarrierWithSync_Init 0 blank_memory))"
  let ?W = "L2_BarrierWithSync_WaitAndReset 0 (fresh_handle 0 0) 2
              (arrival_at 2 0 (fresh_handle 0 1) 2) ?s"
  have ev: "snd ?W = Some \<lparr>barrier_at = (\<lambda>a. \<lparr>start = 7, count = 3\<rparr>)(0 := \<lparr>start = 2, count = 2\<rparr>),
            start_stores = [(0, 0), (0, 2)]\<rparr>"
    unfolding WaitAndReset_result fresh_handle_simps by (simp add: example_wait)
  from WaitAndReset_contract[of 0 "fresh_handle 0 0" 2 "arrival_at 2 0 (fresh_handle 0 1) 2" ?s]
  have "fst ?W = (fresh_handle 0 0)\<lparr>localStart := localStart (fresh_handle 0 0) + scast (2 :: 32 word)\<rparr>"
    and "localStart (fresh_handle 0 0) + scast (2 :: 32 word)
           \<le> start (barrier_at \<lparr>barrier_at = (\<lambda>a. \<lparr>start = 7, count = 3\<rparr>)(0 := \<lparr>start = 2, count = 2\<rparr>),
            start_stores = [(0, 0), (0, 2)]\<rparr> 0)"
    unfolding ev by simp_all
  then show ?thesis unfolding ev by (simp add: fresh_handle_simps)
qed

text \<open>
  Claim C8.  \<open>WaitAndReset(b, h, eventNum)\<close> returns if and only if some read of the loop
  finds \<open>b.start \<ge> localStart + eventNum\<close>.  It returns at the first such read, however many
  reads \<open>K\<close> come before it, so no bound, timeout or cancellation ends the loop; when nothing
  else runs it returns at once if \<open>b.start \<ge> target\<close> already holds and never otherwise.
\<close>

theorem WaitAndReset_returns_iff:
  "(snd (L2_BarrierWithSync_WaitAndReset b h eventNum env s) = None)
     = (\<forall>k. start (barrier_at (observed env s k) b) < localStart h + scast eventNum) \<and>
   (\<forall>K. localStart h + scast eventNum \<le> start (barrier_at (observed env s K) b) \<and>
        (\<forall>j<K. start (barrier_at (observed env s j) b) < localStart h + scast eventNum)
        \<longrightarrow> snd (L2_BarrierWithSync_WaitAndReset b h eventNum env s) = Some (observed env s K)) \<and>
   snd (L2_BarrierWithSync_WaitAndReset b h eventNum (\<lambda>i. id) s)
     = (if start (barrier_at s b) < localStart h + scast eventNum then None else Some s)"
  by (simp add: WaitAndReset_result observed_def spin_None_iff spin_reaches spin_start_alone)

theorem WaitAndReset_returns_iff_witness:
  "snd (L2_BarrierWithSync_WaitAndReset 0 (fresh_handle 0 0) 2
       (arrival_at 2 0 (fresh_handle 0 1) 2)
       (snd (L2_BarrierWithSync_Arrive 0 (fresh_handle 0 0) 2
              (L2_BarrierWithSync_Init 0 blank_memory))))
     = Some (observed (arrival_at 2 0 (fresh_handle 0 1) 2)
              (snd (L2_BarrierWithSync_Arrive 0 (fresh_handle 0 0) 2
                     (L2_BarrierWithSync_Init 0 blank_memory))) 3) \<and>
   start (barrier_at (observed (arrival_at 2 0 (fresh_handle 0 1) 2)
       (snd (L2_BarrierWithSync_Arrive 0 (fresh_handle 0 0) 2
              (L2_BarrierWithSync_Init 0 blank_memory))) 3) 0) = 2 \<and>
   snd (L2_BarrierWithSync_WaitAndReset 0 (fresh_handle 0 0) 2 (\<lambda>i. id)
       (snd (L2_BarrierWithSync_Arrive 0 (fresh_handle 0 0) 2
              (L2_BarrierWithSync_Init 0 blank_memory)))) = None"
proof -
  let ?s = "snd (L2_BarrierWithSync_Arrive 0 (fresh_handle 0 0) 2
              (L2_BarrierWithSync_Init 0 blank_memory))"
  let ?env = "arrival_at 2 0 (fresh_handle 0 1) 2"
  have t: "localStart (fresh_handle 0 0) + scast (2 :: 32 word) = 2"
    by (simp add: fresh_handle_simps)
  have reach: "2 \<le> start (barrier_at (observed ?env ?s 3) 0)"
    by (simp add: example_observed)
  have before: "\<forall>j<3. start (barrier_at (observed ?env ?s j) 0) < 2"
    by (simp add: observed_def numeral_3_eq_3 less_Suc_eq example_eval)
  from WaitAndReset_returns_iff[of 0 "fresh_handle 0 0" 2 ?env ?s] reach before
  have a: "snd (L2_BarrierWithSync_WaitAndReset 0 (fresh_handle 0 0) 2 ?env ?s)
             = Some (observed ?env ?s 3)"
    unfolding t by blast
  from WaitAndReset_returns_iff[of 0 "fresh_handle 0 0" 2 "\<lambda>i. id" ?s]
  have b: "snd (L2_BarrierWithSync_WaitAndReset 0 (fresh_handle 0 0) 2 (\<lambda>i. id) ?s) = None"
    unfolding t by (simp add: example_alone)
  from a b show ?thesis by (simp add: example_observed)
qed

section \<open>The arrivals of a round\<close>

lemma scast_of_nat_small:
  assumes "N < 2 ^ 31"
  shows "(scast (of_nat N :: 32 word) :: 64 word) = of_nat N"
proof -
  have "signed_take_bit 31 (int N) = int N"
    using assms by (intro signed_take_bit_int_eq_self) simp_all
  then have "sint (of_nat N :: 32 word) = int N"
    by (simp add: signed_of_nat)
  then show ?thesis by (simp add: scast_eq)
qed

lemma of_nat_u64_neq:
  assumes "j < N" "N < 2 ^ 64"
  shows "(c :: u64) + of_nat j \<noteq> c + of_nat N"
proof -
  have "take_bit 64 j = j" "take_bit 64 N = N"
    using assms by (simp_all add: take_bit_nat_eq_self)
  with assms(1) have "(of_nat j :: u64) \<noteq> of_nat N"
    by (simp add: word_of_nat_eq_iff)
  then show ?thesis by simp
qed

lemma Arrive_all_append:
  "Arrive_all b n (xs @ ys) s = Arrive_all b n ys (Arrive_all b n xs s)"
  by (induction xs arbitrary: s) simp_all

lemma Arrive_all_no_store:
  assumes "\<forall>h\<in>set hs. bound_to h b \<and> localStart h + scast n = T"
    and "\<forall>j. 0 < j \<and> j \<le> length hs \<longrightarrow> count (barrier_at s b) + of_nat j \<noteq> T"
  shows "start_stores (Arrive_all b n hs s) = start_stores s \<and>
         start (barrier_at (Arrive_all b n hs s) b) = start (barrier_at s b) \<and>
         count (barrier_at (Arrive_all b n hs s) b) = count (barrier_at s b) + of_nat (length hs)"
  using assms
proof (induction hs arbitrary: s)
  case Nil
  show ?case by simp
next
  case (Cons h hs)
  let ?s1 = "snd (L2_BarrierWithSync_Arrive b h n s)"
  from Cons.prems(1) have bh: "bound_to h b" and th: "localStart h + scast n = T" by simp_all
  from Cons.prems(2)[rule_format, of 1] have ne: "count (barrier_at s b) + 1 \<noteq> T" by simp
  have c1: "count (barrier_at ?s1 b) = count (barrier_at s b) + 1"
    using bh by (rule Arrive_bound_count)
  have st1: "start (barrier_at ?s1 b) = start (barrier_at s b)"
    using ne by (simp add: Arrive_bound_start[OF bh] th)
  have lg1: "start_stores ?s1 = start_stores s"
    using ne by (simp add: Arrive_bound_stores[OF bh] th)
  have later: "\<forall>j. 0 < j \<and> j \<le> length hs \<longrightarrow> count (barrier_at ?s1 b) + of_nat j \<noteq> T"
  proof (intro allI impI)
    fix j assume "0 < j \<and> j \<le> length hs"
    then have "0 < Suc j \<and> Suc j \<le> length (h # hs)" by simp
    with Cons.prems(2) have "count (barrier_at s b) + of_nat (Suc j) \<noteq> T" by blast
    then show "count (barrier_at ?s1 b) + of_nat j \<noteq> T" by (simp add: c1 ac_simps)
  qed
  from Cons.prems(1) have "\<forall>h\<in>set hs. bound_to h b \<and> localStart h + scast n = T" by simp
  from Cons.IH[OF this later] show ?case by (simp add: c1 st1 lg1 add.assoc)
qed

text \<open>
  Claim C2.  A round begins with \<open>b.start = b.count = st\<close> and every participating handle
  bound to \<open>b\<close> with \<open>localStart = st\<close>.  Whatever the order \<open>hs\<close> in which the \<open>N\<close> calls
  \<open>Arrive(b, h, N)\<close> take their increments (\<open>N\<close> a positive \<open>int\<close>), exactly one store to
  \<open>b.start\<close> is made, of the value \<open>st + N\<close>: the stores after all \<open>N\<close> calls are the earlier ones
  and this one, and after the first \<open>k\<close> calls, for any \<open>k < N\<close>, no store has been made yet.
\<close>

theorem one_store_per_round:
  assumes "0 < N" and "N < 2 ^ 31" and "length hs = N"
    and "\<forall>h\<in>set hs. bound_to h b \<and> localStart h = st"
    and "start (barrier_at s b) = st" and "count (barrier_at s b) = st"
  shows "start_stores (Arrive_all b (of_nat N) hs s) = start_stores s @ [(b, st + of_nat N)] \<and>
         (\<forall>k<N. start_stores (Arrive_all b (of_nat N) (take k hs) s) = start_stores s) \<and>
         start (barrier_at (Arrive_all b (of_nat N) hs s) b) = st + of_nat N \<and>
         count (barrier_at (Arrive_all b (of_nat N) hs s) b) = st + of_nat N"
proof -
  let ?n = "of_nat N :: 32 word"
  let ?T = "st + of_nat N :: u64"
  have sc: "(scast ?n :: u64) = of_nat N" using assms(2) by (rule scast_of_nat_small)
  have N64: "N < 2 ^ 64"
  proof -
    have "(2::nat) ^ 31 \<le> 2 ^ 64" by simp
    with assms(2) show ?thesis by linarith
  qed
  have tgt: "\<forall>h\<in>set xs. bound_to h b \<and> localStart h + scast ?n = ?T" if "set xs \<subseteq> set hs" for xs
    using that assms(4) by (auto simp: sc)
  have early: "start_stores (Arrive_all b ?n xs s) = start_stores s \<and>
               start (barrier_at (Arrive_all b ?n xs s) b) = st \<and>
               count (barrier_at (Arrive_all b ?n xs s) b) = st + of_nat (length xs)"
    if sub: "set xs \<subseteq> set hs" and len: "length xs < N" for xs
  proof -
    have "\<forall>j. 0 < j \<and> j \<le> length xs \<longrightarrow> count (barrier_at s b) + of_nat j \<noteq> ?T"
    proof (intro allI impI)
      fix j assume "0 < j \<and> j \<le> length xs"
      with len have "j < N" by simp
      from of_nat_u64_neq[OF this N64, of st]
      show "count (barrier_at s b) + of_nat j \<noteq> ?T" unfolding assms(6) .
    qed
    from Arrive_all_no_store[OF tgt[OF sub] this] show ?thesis by (simp add: assms(5,6))
  qed
  have prefixes: "\<forall>k<N. start_stores (Arrive_all b ?n (take k hs) s) = start_stores s"
  proof (intro allI impI)
    fix k assume "k < N"
    then have "length (take k hs) < N" by (simp add: assms(3))
    moreover have "set (take k hs) \<subseteq> set hs" by (rule set_take_subset)
    ultimately show "start_stores (Arrive_all b ?n (take k hs) s) = start_stores s"
      using early by blast
  qed
  from assms(1,3) have ne: "hs \<noteq> []" by auto
  then have split: "hs = butlast hs @ [last hs]" by simp
  let ?s1 = "Arrive_all b ?n (butlast hs) s"
  have "set (butlast hs) \<subseteq> set hs" by (auto dest: in_set_butlastD)
  moreover have "length (butlast hs) < N" using assms(1,3) by simp
  ultimately have e: "start_stores ?s1 = start_stores s"
    "count (barrier_at ?s1 b) = st + of_nat (length (butlast hs))"
    using early by blast+
  have lenb: "Suc (length (butlast hs)) = N" using assms(1,3) by simp
  have "(of_nat N :: u64) = of_nat (Suc (length (butlast hs)))" by (simp only: lenb)
  then have "(of_nat N :: u64) = of_nat (length (butlast hs)) + 1" by simp
  then have cur: "count (barrier_at ?s1 b) + 1 = ?T"
    by (simp only: e(2) add.assoc)
  from ne assms(4) have bl: "bound_to (last hs) b" and ll: "localStart (last hs) = st" by simp_all
  have fin: "Arrive_all b ?n hs s = snd (L2_BarrierWithSync_Arrive b (last hs) ?n ?s1)"
    by (subst split) (simp add: Arrive_all_append)
  have "start_stores (Arrive_all b ?n hs s) = start_stores s @ [(b, ?T)]"
    unfolding fin using cur by (simp add: Arrive_bound_stores[OF bl] ll sc e(1))
  moreover have "start (barrier_at (Arrive_all b ?n hs s) b) = ?T"
    unfolding fin using cur by (simp add: Arrive_bound_start[OF bl] ll sc)
  moreover have "count (barrier_at (Arrive_all b ?n hs s) b) = ?T"
    unfolding fin using cur by (simp add: Arrive_bound_count[OF bl])
  ultimately show ?thesis using prefixes by blast
qed

theorem one_store_per_round_witness:
  "start_stores (Arrive_all 0 4 [fresh_handle 0 2, fresh_handle 0 0, fresh_handle 0 3, fresh_handle 0 1]
      (L2_BarrierWithSync_Init 0 blank_memory)) = [(0, 0), (0, 4)] \<and>
   start (barrier_at (Arrive_all 0 4 [fresh_handle 0 2, fresh_handle 0 0, fresh_handle 0 3, fresh_handle 0 1]
      (L2_BarrierWithSync_Init 0 blank_memory)) 0) = 4 \<and>
   count (barrier_at (Arrive_all 0 4 [fresh_handle 0 2, fresh_handle 0 0, fresh_handle 0 3, fresh_handle 0 1]
      (L2_BarrierWithSync_Init 0 blank_memory)) 0) = 4"
  using one_store_per_round[of 4 "[fresh_handle 0 2, fresh_handle 0 0, fresh_handle 0 3, fresh_handle 0 1]"
          0 0 "L2_BarrierWithSync_Init 0 blank_memory"]
  by (simp add: fresh_handle_simps Init_simps blank_memory_def)

section \<open>Interleavings\<close>

lemma Barrier_alone:
  "L2_BarrierWithSync_Barrier b h n (\<lambda>i. id) s =
     (h\<lparr>localStart := localStart h + scast n\<rparr>,
      if start (barrier_at (snd (L2_BarrierWithSync_Arrive b h n s)) b) < localStart h + scast n
      then None else Some (snd (L2_BarrierWithSync_Arrive b h n s)))"
  by (simp add: L2_BarrierWithSync_Barrier_def case_prod_unfold Arrive_handle
        L2_BarrierWithSync_WaitAndReset_def Let_def spin_start_alone)

lemma WaitAndReset_alone:
  "L2_BarrierWithSync_WaitAndReset b h n (\<lambda>i. id) s =
     (h\<lparr>localStart := localStart h + scast n\<rparr>,
      if start (barrier_at s b) < localStart h + scast n then None else Some s)"
  by (simp add: L2_BarrierWithSync_WaitAndReset_def Let_def spin_start_alone)

text \<open>What one call of an interleaving does, call by call.\<close>

lemma exec_call_cases:
  "exec_call b (th, c) (hs, s) =
     (case c of
        Call_InitInThread tid \<Rightarrow>
          Some (hs(th := \<lparr>localStart = 0, localCountPtr = \<lparr>inc_target = b, inc_tid = tid\<rparr>\<rparr>), s)
      | Call_Arrive n \<Rightarrow> Some (hs, snd (L2_BarrierWithSync_Arrive b (hs th) n s))
      | Call_Reset n \<Rightarrow> Some (hs(th := (hs th)\<lparr>localStart := localStart (hs th) + scast n\<rparr>), s)
      | Call_WaitAndReset n \<Rightarrow>
          if start (barrier_at s b) < localStart (hs th) + scast n then None
          else Some (hs(th := (hs th)\<lparr>localStart := localStart (hs th) + scast n\<rparr>), s)
      | Call_Barrier n \<Rightarrow>
          if start (barrier_at (snd (L2_BarrierWithSync_Arrive b (hs th) n s)) b)
               < localStart (hs th) + scast n then None
          else Some (hs(th := (hs th)\<lparr>localStart := localStart (hs th) + scast n\<rparr>),
                     snd (L2_BarrierWithSync_Arrive b (hs th) n s)))"
proof (cases c)
  case (Call_InitInThread tid)
  then show ?thesis
    using InitInThread_handle[of tid b "hs th" s] InitInThread_memory[of tid b "hs th" s]
    by (simp add: case_prod_unfold Let_def)
next
  case (Call_Arrive n)
  then show ?thesis
    using Arrive_handle[of b "hs th" n s] by (simp add: case_prod_unfold Let_def)
next
  case (Call_Reset n)
  then show ?thesis by (simp add: L2_BarrierWithSync_Reset_def Let_def)
next
  case (Call_WaitAndReset n)
  then show ?thesis by (simp add: WaitAndReset_alone)
next
  case (Call_Barrier n)
  then show ?thesis by (simp add: Barrier_alone)
qed

lemma word_le_inc:
  fixes x c :: u64
  assumes "x \<le> c" "unat c < 2 ^ 64 - 1"
  shows "x \<le> c + 1" "unat (c + 1) = unat c + 1"
proof -
  from assms(2) have "unat c + unat (1 :: u64) < 2 ^ LENGTH(64)" by simp
  then have "unat (c + 1) = unat c + unat (1 :: u64)" by (simp only: unat_add_lem)
  then show u: "unat (c + 1) = unat c + 1" by simp
  from assms(1) have "unat x \<le> unat c" by (simp add: word_le_nat_alt)
  with u show "x \<le> c + 1" by (simp add: word_le_nat_alt)
qed

lemma Arrive_keeps_invariant:
  assumes "bound_to h b" "count_ge_start s b" "unat (count (barrier_at s b)) < 2 ^ 64 - 1"
  shows "count_ge_start (snd (L2_BarrierWithSync_Arrive b h n s)) b"
    and "unat (count (barrier_at (snd (L2_BarrierWithSync_Arrive b h n s)) b))
           = unat (count (barrier_at s b)) + 1"
  using assms word_le_inc[of "start (barrier_at s b)" "count (barrier_at s b)"]
  by (simp_all add: count_ge_start_def Arrive_bound_count Arrive_bound_start)

lemma handles_ready_cong:
  assumes "\<And>t. inc_target (localCountPtr (hs t)) = inc_target (localCountPtr (hs2 t))"
  shows "handles_ready b hs cs = handles_ready b hs2 cs"
  using assms
proof (induction cs arbitrary: hs hs2)
  case Nil
  show ?case by simp
next
  case (Cons tc cs)
  obtain t c where tc: "tc = (t, c)" by (cases tc)
  show ?case
  proof (cases c)
    case (Call_InitInThread tid)
    have "handles_ready b (hs(t := (hs t)\<lparr>localCountPtr := l2_op_tid_ptr_LOAD_INCREMENT b tid\<rparr>)) cs
          = handles_ready b (hs2(t := (hs2 t)\<lparr>localCountPtr := l2_op_tid_ptr_LOAD_INCREMENT b tid\<rparr>)) cs"
      by (rule Cons.IH) (simp add: Cons.prems)
    then show ?thesis by (simp add: tc Call_InitInThread)
  next
    case (Call_Arrive n)
    with Cons.IH[of hs hs2] Cons.prems show ?thesis by (simp add: tc bound_to_def)
  next
    case (Call_Reset n)
    with Cons.IH[of hs hs2] Cons.prems show ?thesis by (simp add: tc bound_to_def)
  next
    case (Call_WaitAndReset n)
    with Cons.IH[of hs hs2] Cons.prems show ?thesis by (simp add: tc bound_to_def)
  next
    case (Call_Barrier n)
    with Cons.IH[of hs hs2] Cons.prems show ?thesis by (simp add: tc bound_to_def)
  qed
qed

lemma handles_ready_Cons:
  "handles_ready b hs ((t, c) # cs) =
     (case c of
        Call_InitInThread tid \<Rightarrow>
          handles_ready b (hs(t := (hs t)\<lparr>localCountPtr := l2_op_tid_ptr_LOAD_INCREMENT b tid\<rparr>)) cs
      | _ \<Rightarrow> bound_to (hs t) b \<and> handles_ready b hs cs)"
  by (cases c) simp_all

lemma exec_call_ready:
  assumes "exec_call b (th, c) (hs, s) = Some (hs', s')"
    and "handles_ready b hs ((th, c) # cs)"
    and "count_ge_start s b" and "unat (count (barrier_at s b)) < 2 ^ 64 - 1"
  shows "handles_ready b hs' cs \<and> count_ge_start s' b \<and>
         unat (count (barrier_at s' b)) \<le> unat (count (barrier_at s b)) + 1"
proof (cases c)
  case (Call_InitInThread tid)
  with assms(1) have e: "hs' = hs(th := \<lparr>localStart = 0, localCountPtr = \<lparr>inc_target = b, inc_tid = tid\<rparr>\<rparr>)"
    "s' = s" by (simp_all add: exec_call_cases)
  have "handles_ready b hs' cs
        = handles_ready b (hs(th := (hs th)\<lparr>localCountPtr := l2_op_tid_ptr_LOAD_INCREMENT b tid\<rparr>)) cs"
    by (rule handles_ready_cong) (simp add: e l2_op_tid_ptr_LOAD_INCREMENT_def)
  with assms(2,3) Call_InitInThread show ?thesis by (simp add: e)
next
  case (Call_Arrive n)
  with assms(2) have bh: "bound_to (hs th) b" and r: "handles_ready b hs cs" by simp_all
  from assms(1) Call_Arrive have e: "hs' = hs" "s' = snd (L2_BarrierWithSync_Arrive b (hs th) n s)"
    by (auto simp: exec_call_cases)
  from Arrive_keeps_invariant[OF bh assms(3,4), of n] r show ?thesis by (simp add: e)
next
  case (Call_Reset n)
  with assms(2) have r: "handles_ready b hs cs" by simp
  from assms(1) Call_Reset have e: "hs' = hs(th := (hs th)\<lparr>localStart := localStart (hs th) + scast n\<rparr>)"
    "s' = s" by (simp_all add: exec_call_cases)
  have "handles_ready b hs' cs = handles_ready b hs cs"
    by (rule handles_ready_cong) (simp add: e)
  with r assms(3) show ?thesis by (simp add: e)
next
  case (Call_WaitAndReset n)
  with assms(2) have r: "handles_ready b hs cs" by simp
  from assms(1) Call_WaitAndReset
  have e: "hs' = hs(th := (hs th)\<lparr>localStart := localStart (hs th) + scast n\<rparr>)" "s' = s"
    by (simp_all add: exec_call_cases split: if_splits)
  have "handles_ready b hs' cs = handles_ready b hs cs"
    by (rule handles_ready_cong) (simp add: e)
  with r assms(3) show ?thesis by (simp add: e)
next
  case (Call_Barrier n)
  with assms(2) have bh: "bound_to (hs th) b" and r: "handles_ready b hs cs" by simp_all
  from assms(1) Call_Barrier
  have e: "hs' = hs(th := (hs th)\<lparr>localStart := localStart (hs th) + scast n\<rparr>)"
    "s' = snd (L2_BarrierWithSync_Arrive b (hs th) n s)"
    by (simp_all add: exec_call_cases split: if_splits)
  have "handles_ready b hs' cs = handles_ready b hs cs"
    by (rule handles_ready_cong) (simp add: e)
  with Arrive_keeps_invariant[OF bh assms(3,4), of n] r show ?thesis by (simp add: e)
qed

lemma run_calls_ready_invariant:
  assumes "run_calls b cs (hs, s) = Some (hs', s')"
    and "handles_ready b hs cs" "count_ge_start s b"
    and "unat (count (barrier_at s b)) + length cs < 2 ^ 64"
  shows "count_ge_start s' b"
  using assms
proof (induction cs arbitrary: hs s)
  case Nil
  then show ?case by simp
next
  case (Cons c cs)
  obtain th cl where c: "c = (th, cl)" by (cases c)
  from Cons.prems(1) obtain hs1 s1 where
    e: "exec_call b (th, cl) (hs, s) = Some (hs1, s1)" and r: "run_calls b cs (hs1, s1) = Some (hs', s')"
    by (auto simp: c split: option.splits)
  from Cons.prems(4) have "unat (count (barrier_at s b)) < 2 ^ 64 - 1" by simp
  from exec_call_ready[OF e Cons.prems(2)[unfolded c] Cons.prems(3) this]
  have i: "handles_ready b hs1 cs" "count_ge_start s1 b"
    "unat (count (barrier_at s1 b)) \<le> unat (count (barrier_at s b)) + 1" by simp_all
  from i(3) Cons.prems(4) have "unat (count (barrier_at s1 b)) + length cs < 2 ^ 64" by simp
  from Cons.IH[OF r i(1,2) this] show ?case .
qed

lemma handles_ready_arrivals:
  "bound_to (hs th) b \<Longrightarrow> handles_ready b hs (replicate k (th, Call_Arrive n))"
  by (induction k) simp_all

lemma stores_reached_iff:
  "stores_reached b s s' \<longleftrightarrow>
     (\<exists>ws. start_stores s' = start_stores s @ ws \<and>
           (\<forall>p\<in>set ws. fst p = b \<and> snd p \<le> count (barrier_at s' b)))"
proof
  assume "stores_reached b s s'"
  then have t: "take (length (start_stores s)) (start_stores s') = start_stores s"
    and d: "list_all (\<lambda>(a, v). a = b \<and> v \<le> count (barrier_at s' b))
              (drop (length (start_stores s)) (start_stores s'))"
    by (simp_all add: stores_reached_def)
  have "start_stores s' = start_stores s @ drop (length (start_stores s)) (start_stores s')"
    using append_take_drop_id[of "length (start_stores s)" "start_stores s'"] by (simp only: t)
  moreover from d have "\<forall>p\<in>set (drop (length (start_stores s)) (start_stores s')).
                          fst p = b \<and> snd p \<le> count (barrier_at s' b)"
    by (auto simp: list_all_iff)
  ultimately show "\<exists>ws. start_stores s' = start_stores s @ ws \<and>
           (\<forall>p\<in>set ws. fst p = b \<and> snd p \<le> count (barrier_at s' b))" by blast
next
  assume "\<exists>ws. start_stores s' = start_stores s @ ws \<and>
           (\<forall>p\<in>set ws. fst p = b \<and> snd p \<le> count (barrier_at s' b))"
  then obtain ws where "start_stores s' = start_stores s @ ws"
    "\<forall>p\<in>set ws. fst p = b \<and> snd p \<le> count (barrier_at s' b)" by blast
  then show "stores_reached b s s'"
    by (auto simp: stores_reached_def list_all_iff)
qed

lemma stores_reached_refl: "stores_reached b s s"
  by (simp add: stores_reached_def)

lemma stores_reached_trans:
  assumes "stores_reached b s s1" "stores_reached b s1 s2"
    and "count (barrier_at s1 b) \<le> count (barrier_at s2 b)"
  shows "stores_reached b s s2"
proof -
  from assms(1) obtain ws1 where 1: "start_stores s1 = start_stores s @ ws1"
    "\<forall>p\<in>set ws1. fst p = b \<and> snd p \<le> count (barrier_at s1 b)"
    by (auto simp: stores_reached_iff)
  from assms(2) obtain ws2 where 2: "start_stores s2 = start_stores s1 @ ws2"
    "\<forall>p\<in>set ws2. fst p = b \<and> snd p \<le> count (barrier_at s2 b)"
    by (auto simp: stores_reached_iff)
  have "start_stores s2 = start_stores s @ (ws1 @ ws2)" by (simp add: 1(1) 2(1))
  moreover have "\<forall>p\<in>set (ws1 @ ws2). fst p = b \<and> snd p \<le> count (barrier_at s2 b)"
    using 1(2) 2(2) assms(3) by (auto intro: order_trans)
  ultimately show ?thesis unfolding stores_reached_iff by blast
qed

lemma Arrive_stores_reached:
  assumes "bound_to h b" "unat (count (barrier_at s b)) < 2 ^ 64 - 1"
  shows "stores_reached b s (snd (L2_BarrierWithSync_Arrive b h n s))"
    and "count (barrier_at s b) \<le> count (barrier_at (snd (L2_BarrierWithSync_Arrive b h n s)) b)"
proof -
  from word_le_inc(1)[OF order_refl assms(2)]
  show le: "count (barrier_at s b) \<le> count (barrier_at (snd (L2_BarrierWithSync_Arrive b h n s)) b)"
    by (simp add: Arrive_bound_count[OF assms(1)])
  show "stores_reached b s (snd (L2_BarrierWithSync_Arrive b h n s))"
    unfolding stores_reached_iff
    by (simp add: Arrive_bound_stores[OF assms(1)] Arrive_bound_count[OF assms(1)])
qed

lemma exec_call_stores:
  assumes "exec_call b (th, c) (hs, s) = Some (hs', s')"
    and "handles_ready b hs ((th, c) # cs)"
    and "unat (count (barrier_at s b)) < 2 ^ 64 - 1"
  shows "stores_reached b s s' \<and> count (barrier_at s b) \<le> count (barrier_at s' b)"
proof (cases c)
  case (Call_InitInThread tid)
  with assms(1) have "s' = s" by (simp add: exec_call_cases)
  then show ?thesis by (simp add: stores_reached_refl)
next
  case (Call_Arrive n)
  with assms(2) have bh: "bound_to (hs th) b" by simp
  from assms(1) Call_Arrive have "s' = snd (L2_BarrierWithSync_Arrive b (hs th) n s)"
    by (auto simp: exec_call_cases)
  with Arrive_stores_reached[OF bh assms(3), of n] show ?thesis by simp
next
  case (Call_Reset n)
  with assms(1) have "s' = s" by (simp add: exec_call_cases)
  then show ?thesis by (simp add: stores_reached_refl)
next
  case (Call_WaitAndReset n)
  with assms(1) have "s' = s" by (simp add: exec_call_cases split: if_splits)
  then show ?thesis by (simp add: stores_reached_refl)
next
  case (Call_Barrier n)
  with assms(2) have bh: "bound_to (hs th) b" by simp
  from assms(1) Call_Barrier have "s' = snd (L2_BarrierWithSync_Arrive b (hs th) n s)"
    by (auto simp: exec_call_cases split: if_splits)
  with Arrive_stores_reached[OF bh assms(3), of n] show ?thesis by simp
qed

lemma run_calls_ready_stores:
  assumes "run_calls b cs (hs, s) = Some (hs', s')"
    and "handles_ready b hs cs" "count_ge_start s b"
    and "unat (count (barrier_at s b)) + length cs < 2 ^ 64"
  shows "stores_reached b s s' \<and> count (barrier_at s b) \<le> count (barrier_at s' b)"
  using assms
proof (induction cs arbitrary: hs s)
  case Nil
  then show ?case by (simp add: stores_reached_refl)
next
  case (Cons c cs)
  obtain th cl where c: "c = (th, cl)" by (cases c)
  from Cons.prems(1) obtain hs1 s1 where
    e: "exec_call b (th, cl) (hs, s) = Some (hs1, s1)" and r: "run_calls b cs (hs1, s1) = Some (hs', s')"
    by (auto simp: c split: option.splits)
  from Cons.prems(4) have small: "unat (count (barrier_at s b)) < 2 ^ 64 - 1" by simp
  from exec_call_ready[OF e Cons.prems(2)[unfolded c] Cons.prems(3) small]
  have i: "handles_ready b hs1 cs" "count_ge_start s1 b"
    "unat (count (barrier_at s1 b)) \<le> unat (count (barrier_at s b)) + 1" by simp_all
  from exec_call_stores[OF e Cons.prems(2)[unfolded c] small]
  have f: "stores_reached b s s1" "count (barrier_at s b) \<le> count (barrier_at s1 b)" by simp_all
  from i(3) Cons.prems(4) have "unat (count (barrier_at s1 b)) + length cs < 2 ^ 64" by simp
  from Cons.IH[OF r i(1,2) this]
  have g: "stores_reached b s1 s'" "count (barrier_at s1 b) \<le> count (barrier_at s' b)" by simp_all
  from stores_reached_trans[OF f(1) g(1) g(2)] f(2) g(2) show ?case by simp
qed

text \<open>
  Claim C4, as the code has it.  \<open>count \<ge> start\<close> holds after \<open>Init\<close>, which leaves both at
  0, and every interleaving of \<open>InitInThread\<close>, \<open>Arrive\<close>, \<open>Reset\<close>, \<open>WaitAndReset\<close> and
  \<open>Barrier\<close> calls through handles of the barrier preserves it for as long as the 64-bit
  \<open>count\<close> has not wrapped around: from a memory where it holds, after any calls \<open>cs\<close>
  with \<open>count + length cs < 2^64\<close>.  In such a run \<open>count\<close> does not decrease, and \<open>start\<close> is
  only ever advanced to a value that \<open>count\<close> has already reached: every store the calls
  make to \<open>start\<close> is of a value at most \<open>count\<close>.  The header says of the wrap that the
  fields "will not wrap for hundreds of years".
\<close>

theorem count_ge_start_preserved:
  assumes "run_calls b cs (hs, s) = Some (hs', s')"
    and "handles_ready b hs cs" and "count_ge_start s b"
    and "unat (count (barrier_at s b)) + length cs < 2 ^ 64"
  shows "count_ge_start (L2_BarrierWithSync_Init b s0) b \<and>
         count (barrier_at (L2_BarrierWithSync_Init b s0) b) = 0 \<and>
         count_ge_start s' b \<and>
         stores_reached b s s' \<and>
         count (barrier_at s b) \<le> count (barrier_at s' b)"
  using run_calls_ready_invariant[OF assms] run_calls_ready_stores[OF assms]
  by (simp add: count_ge_start_def Init_simps)

theorem count_ge_start_preserved_witness:
  "run_calls 0 [(0, Call_InitInThread 0), (1, Call_InitInThread 1), (0, Call_Arrive 2),
                (1, Call_Barrier 2), (0, Call_WaitAndReset 2), (1, Call_Arrive 2), (1, Call_Reset 2)]
     (\<lambda>th. raw_handle, L2_BarrierWithSync_Init 0 blank_memory)
     = Some ((\<lambda>th. raw_handle)
               (0 := fresh_handle 0 0,
                1 := fresh_handle 0 1,
                1 := (fresh_handle 0 1)\<lparr>localStart := 2\<rparr>,
                0 := (fresh_handle 0 0)\<lparr>localStart := 2\<rparr>,
                1 := (fresh_handle 0 1)\<lparr>localStart := 4\<rparr>),
             \<lparr>barrier_at = (\<lambda>a. \<lparr>start = 7, count = 3\<rparr>)(0 := \<lparr>start = 2, count = 3\<rparr>),
              start_stores = [(0, 0), (0, 2)]\<rparr>) \<and>
   handles_ready 0 (\<lambda>th. raw_handle)
     [(0, Call_InitInThread 0), (1, Call_InitInThread 1), (0, Call_Arrive 2),
      (1, Call_Barrier 2), (0, Call_WaitAndReset 2), (1, Call_Arrive 2), (1, Call_Reset 2)] \<and>
   count_ge_start (L2_BarrierWithSync_Init 0 blank_memory) 0 \<and>
   count_ge_start \<lparr>barrier_at = (\<lambda>a. \<lparr>start = 7, count = 3\<rparr>)(0 := \<lparr>start = 2, count = 3\<rparr>),
              start_stores = [(0, 0), (0, 2)]\<rparr> 0 \<and>
   stores_reached 0 (L2_BarrierWithSync_Init 0 blank_memory)
     \<lparr>barrier_at = (\<lambda>a. \<lparr>start = 7, count = 3\<rparr>)(0 := \<lparr>start = 2, count = 3\<rparr>),
      start_stores = [(0, 0), (0, 2)]\<rparr>"
proof -
  let ?cs = "[(0, Call_InitInThread 0), (1, Call_InitInThread 1), (0, Call_Arrive 2),
                (1, Call_Barrier 2), (0, Call_WaitAndReset 2), (1, Call_Arrive 2), (1, Call_Reset 2)]"
  let ?hs = "\<lambda>th::nat. raw_handle"
  let ?s = "L2_BarrierWithSync_Init 0 blank_memory"
  let ?s' = "\<lparr>barrier_at = (\<lambda>a. \<lparr>start = 7, count = 3\<rparr>)(0 := \<lparr>start = 2, count = 3\<rparr>),
              start_stores = [(0, 0), (0, 2)]\<rparr>"
  let ?hs' = "(\<lambda>th. raw_handle)
               (0 := fresh_handle 0 0,
                1 := fresh_handle 0 1,
                1 := (fresh_handle 0 1)\<lparr>localStart := 2\<rparr>,
                0 := (fresh_handle 0 0)\<lparr>localStart := 2\<rparr>,
                1 := (fresh_handle 0 1)\<lparr>localStart := 4\<rparr>)"
  have run: "run_calls 0 ?cs (?hs, ?s) = Some (?hs', ?s')"
    by (simp add: exec_call_cases example_eval)
  have ab: "handles_ready 0 ?hs ?cs"
    by (simp add: bound_to_def l2_op_tid_ptr_LOAD_INCREMENT_def)
  have i0: "count_ge_start ?s 0" by (simp add: count_ge_start_def Init_simps)
  have len: "unat (count (barrier_at ?s 0)) + length ?cs < 2 ^ 64" by (simp add: Init_simps)
  from count_ge_start_preserved[OF run ab i0 len, of blank_memory]
  have "count_ge_start ?s' 0" and "stores_reached 0 ?s ?s'" by simp_all
  with run ab i0 show ?thesis by simp
qed

lemma run_calls_append:
  "run_calls b (xs @ ys) st = (case run_calls b xs st of None \<Rightarrow> None | Some st1 \<Rightarrow> run_calls b ys st1)"
  by (induction xs arbitrary: st) (simp_all split: option.split)

lemma arrivals_keep_start_1:
  assumes "bound_to (hs th) b" "localStart (hs th) + scast n = 1" "start (barrier_at s b) = 1"
  shows "\<exists>s'. run_calls b (replicate k (th, Call_Arrive n)) (hs, s) = Some (hs, s') \<and>
              start (barrier_at s' b) = 1 \<and>
              count (barrier_at s' b) = count (barrier_at s b) + of_nat k"
  using assms(3)
proof (induction k arbitrary: s)
  case 0
  then show ?case by simp
next
  case (Suc k)
  let ?s1 = "snd (L2_BarrierWithSync_Arrive b (hs th) n s)"
  have st: "start (barrier_at ?s1 b) = 1"
    using Suc.prems by (simp add: Arrive_bound_start[OF assms(1)] assms(2))
  have ct: "count (barrier_at ?s1 b) = count (barrier_at s b) + 1"
    by (rule Arrive_bound_count[OF assms(1)])
  from Suc.IH[OF st] obtain s' where
    "run_calls b (replicate k (th, Call_Arrive n)) (hs, ?s1) = Some (hs, s')"
    "start (barrier_at s' b) = 1" "count (barrier_at s' b) = count (barrier_at ?s1 b) + of_nat k"
    by blast
  then show ?case by (simp add: exec_call_cases ct add.assoc)
qed

lemma arrivals_from_zero:
  assumes "bound_to (hs th) b" "localStart (hs th) + scast n = 1"
    "start (barrier_at s b) = 0" "count (barrier_at s b) = 0" "0 < k"
  shows "\<exists>s'. run_calls b (replicate k (th, Call_Arrive n)) (hs, s) = Some (hs, s') \<and>
              start (barrier_at s' b) = 1 \<and> count (barrier_at s' b) = of_nat k"
proof -
  from assms(5) obtain k' where k: "k = Suc k'" by (cases k) simp_all
  let ?s1 = "snd (L2_BarrierWithSync_Arrive b (hs th) n s)"
  have st: "start (barrier_at ?s1 b) = 1"
    by (simp add: Arrive_bound_start[OF assms(1)] assms(2,4))
  have ct: "count (barrier_at ?s1 b) = 1"
    by (simp add: Arrive_bound_count[OF assms(1)] assms(4))
  from arrivals_keep_start_1[of hs th b n ?s1 k', OF assms(1,2) st] obtain s' where
    "run_calls b (replicate k' (th, Call_Arrive n)) (hs, ?s1) = Some (hs, s')"
    "start (barrier_at s' b) = 1" "count (barrier_at s' b) = count (barrier_at ?s1 b) + of_nat k'"
    by blast
  then show ?thesis by (simp add: k exec_call_cases ct)
qed

text \<open>
  Without the bound the invariant fails: after \<open>Init\<close>, \<open>2^64\<close> arrivals with round size 1
  through a fresh handle leave \<open>start = 1\<close>, stored by the first, and \<open>count = 0\<close>.
\<close>

theorem count_ge_start_counterexample:
  "handles_ready 0 (\<lambda>th. fresh_handle 0 (of_nat th)) (replicate (2 ^ 64) (0, Call_Arrive 1)) \<and>
   count_ge_start (L2_BarrierWithSync_Init 0 blank_memory) 0 \<and>
   map_option (\<lambda>st. count_ge_start (snd st) 0)
     (run_calls 0 (replicate (2 ^ 64) (0, Call_Arrive 1))
        (\<lambda>th. fresh_handle 0 (of_nat th), L2_BarrierWithSync_Init 0 blank_memory))
   = Some False"
proof -
  let ?hs = "\<lambda>th. fresh_handle 0 (of_nat th)"
  have "\<exists>s'. run_calls 0 (replicate (2 ^ 64) (0, Call_Arrive 1))
               (?hs, L2_BarrierWithSync_Init 0 blank_memory) = Some (?hs, s') \<and>
             start (barrier_at s' 0) = 1 \<and> count (barrier_at s' 0) = of_nat (2 ^ 64)"
    by (rule arrivals_from_zero) (simp_all add: fresh_handle_simps Init_simps)
  then obtain s' where r: "run_calls 0 (replicate (2 ^ 64) (0, Call_Arrive 1))
               (?hs, L2_BarrierWithSync_Init 0 blank_memory) = Some (?hs, s')"
    and st: "start (barrier_at s' 0) = 1" and ct: "count (barrier_at s' 0) = of_nat (2 ^ 64)"
    by blast
  have "(of_nat (2 ^ 64) :: u64) = 0" using of_nat_2p[where 'a = 64] by simp
  with ct have "count (barrier_at s' 0) = 0" by (simp only:)
  with st have "\<not> count_ge_start s' 0" by (simp add: count_ge_start_def)
  with r have a: "map_option (\<lambda>st. count_ge_start (snd st) 0)
     (run_calls 0 (replicate (2 ^ 64) (0, Call_Arrive 1))
        (?hs, L2_BarrierWithSync_Init 0 blank_memory)) = Some False" by simp
  have b: "handles_ready 0 ?hs (replicate (2 ^ 64) (0, Call_Arrive 1))"
    by (rule handles_ready_arrivals) (simp add: fresh_handle_simps)
  have c: "count_ge_start (L2_BarrierWithSync_Init 0 blank_memory) 0"
    by (simp add: count_ge_start_def Init_simps)
  from a b c show ?thesis by blast
qed

section \<open>Rounds\<close>

lemma exec_call_localStart:
  assumes "exec_call b (t, c) (hs, s) = Some (hs', s')"
    and "t \<noteq> th \<or> c = Call_Arrive n \<or> c = Call_Reset n \<or> c = Call_WaitAndReset n \<or>
         c = Call_Barrier n"
  shows "localStart (hs' th)
           = localStart (hs th) + (if t = th \<and> closes_round c then scast n else 0)"
proof (cases "t = th")
  case False
  with assms(1) show ?thesis
    by (cases c) (auto simp: exec_call_cases split: if_splits)
next
  case True
  with assms(2) consider "c = Call_Arrive n" | "c = Call_Reset n" | "c = Call_WaitAndReset n"
    | "c = Call_Barrier n" by blast
  then show ?thesis
    using assms(1) True by cases (auto simp: exec_call_cases split: if_splits)
qed

lemma run_calls_localStart:
  assumes "run_calls b cs (hs, s) = Some (hs', s')" and "uses_round_size th n cs"
  shows "localStart (hs' th) = localStart (hs th) + of_nat (rounds_of th cs) * scast n"
  using assms
proof (induction cs arbitrary: hs s)
  case Nil
  then show ?case by (simp add: rounds_of_def)
next
  case (Cons tc cs)
  obtain t c where tc: "tc = (t, c)" by (cases tc)
  from Cons.prems(1) obtain hs1 s1 where
    e: "exec_call b (t, c) (hs, s) = Some (hs1, s1)" and r: "run_calls b cs (hs1, s1) = Some (hs', s')"
    by (auto simp: tc split: option.splits)
  from Cons.prems(2) have u: "uses_round_size th n cs"
    and ok: "t \<noteq> th \<or> c = Call_Arrive n \<or> c = Call_Reset n \<or> c = Call_WaitAndReset n \<or>
             c = Call_Barrier n"
    by (simp_all add: uses_round_size_def tc)
  have "rounds_of th (tc # cs) = (if t = th \<and> closes_round c then 1 else 0) + rounds_of th cs"
    by (simp add: rounds_of_def tc)
  with Cons.IH[OF r u] exec_call_localStart[OF e ok] show ?case
    by (simp add: algebra_simps)
qed

lemma exec_call_waits:
  assumes "exec_call b (th, c) (hs, s) = Some (hs', s')" and "waits c"
  shows "localStart (hs' th) \<le> start (barrier_at s' b)"
  using assms by (cases c) (auto simp: exec_call_cases not_less split: if_splits)

lemma run_calls_last_waits:
  assumes "run_calls b cs (hs, s) = Some (hs', s')"
    and "cs \<noteq> []" and "fst (last cs) = th" and "waits (snd (last cs))"
  shows "localStart (hs' th) \<le> start (barrier_at s' b)"
proof -
  from assms(2,3) have cs: "cs = butlast cs @ [(th, snd (last cs))]"
    by (metis append_butlast_last_id prod.collapse)
  from assms(1) obtain hs1 s1 where
    "exec_call b (th, snd (last cs)) (hs1, s1) = Some (hs', s')"
    by (subst (asm) cs) (auto simp: run_calls_append split: option.splits)
  then show ?thesis using assms(4) by (rule exec_call_waits)
qed

lemma scast_nonneg:
  fixes n :: "32 word"
  assumes "0 \<le> sint n"
  shows "(scast n :: u64) = of_nat (nat (sint n))"
proof -
  from assms have "int (nat (sint n)) = sint n" by simp
  then have "(of_int (sint n) :: u64) = of_int (int (nat (sint n)))" by (simp only:)
  also have "\<dots> = of_nat (nat (sint n))" by (rule of_int_of_nat_eq)
  finally show ?thesis by (simp only: scast_eq)
qed

lemma unat_rounds:
  fixes n :: "32 word"
  assumes "0 \<le> sint n" and "r * nat (sint n) < 2 ^ 64"
  shows "unat (of_nat r * scast n :: u64) = r * nat (sint n)"
proof -
  have "(of_nat r * scast n :: u64) = of_nat (r * nat (sint n))"
    by (simp only: scast_nonneg[OF assms(1)] of_nat_mult)
  moreover have "unat (of_nat (r * nat (sint n)) :: u64) = r * nat (sint n)"
    using assms(2) by (simp only: unat_of_nat) simp
  ultimately show ?thesis by (simp only:)
qed

lemma typical_round_runs:
  assumes "round_begins b c (hs, s)"
  shows "\<exists>st. run_calls b typical_round (hs, s) = Some st \<and> round_begins b (c + 2) st"
proof -
  from assms have b0: "bound_to (hs 0) b" and b1: "bound_to (hs 1) b" and b2: "bound_to (hs 2) b"
    and l: "localStart (hs 0) = c" "localStart (hs 1) = c" "localStart (hs 2) = c"
    and m: "count (barrier_at s b) = c" "start (barrier_at s b) = c"
    by (simp_all add: round_begins_def)
  let ?s1 = "snd (L2_BarrierWithSync_Arrive b (hs 0) 2 s)"
  let ?s2 = "snd (L2_BarrierWithSync_Arrive b (hs 1) 2 ?s1)"
  have ne: "c + 1 \<noteq> c + 2" by simp
  have c1: "count (barrier_at ?s1 b) = c + 1" by (simp add: Arrive_bound_count[OF b0] m)
  have s1: "start (barrier_at ?s1 b) = c" using ne by (simp add: Arrive_bound_start[OF b0] m l)
  have c2: "count (barrier_at ?s2 b) = c + 2"
    using Arrive_bound_count[OF b1, where n = 2 and s = ?s1] by (simp add: c1 add.assoc)
  have s2: "start (barrier_at ?s2 b) = c + 2"
    using Arrive_bound_start[OF b1, where n = 2 and s = ?s1] l(2) by (simp add: c1 add.assoc)
  let ?hs' = "hs(0 := (hs 0)\<lparr>localStart := c + 2\<rparr>, 1 := (hs 1)\<lparr>localStart := c + 2\<rparr>,
                 2 := (hs 2)\<lparr>localStart := c + 2\<rparr>)"
  have "run_calls b typical_round (hs, s) = Some (?hs', ?s2)"
    using l s2 by (simp add: typical_round_def exec_call_cases)
  moreover have "round_begins b (c + 2) (?hs', ?s2)"
    using b0 b1 b2 c2 s2 by (simp add: round_begins_def bound_to_def)
  ultimately show ?thesis by blast
qed

lemma typical_rounds_run:
  assumes "round_begins b c st"
  shows "\<exists>st'. run_calls b (concat (replicate R typical_round)) st = Some st' \<and>
               round_begins b (c + of_nat R * 2) st'"
  using assms
proof (induction R arbitrary: c st)
  case 0
  then show ?case by simp
next
  case (Suc R)
  obtain hs s where st: "st = (hs, s)" by (cases st)
  from typical_round_runs[of b c hs s] Suc.prems obtain st1 where
    1: "run_calls b typical_round st = Some st1" "round_begins b (c + 2) st1"
    by (auto simp: st)
  from Suc.IH[OF 1(2)] obtain st' where
    2: "run_calls b (concat (replicate R typical_round)) st1 = Some st'"
       "round_begins b (c + 2 + of_nat R * 2) st'" by blast
  have "c + 2 + of_nat R * 2 = c + of_nat (Suc R) * 2" by (simp add: algebra_simps)
  with 1(1) 2 show ?case by (simp add: run_calls_append)
qed

lemma typical_rounds_all_run:
  "\<exists>st. run_calls b (typical_rounds R) (hs, L2_BarrierWithSync_Init b s0) = Some st \<and>
        localStart (fst st 0) = of_nat R * 2 \<and> localStart (fst st 1) = of_nat R * 2 \<and>
        localStart (fst st 2) = of_nat R * 2 \<and> start (barrier_at (snd st) b) = of_nat R * 2"
proof -
  let ?st = "(hs(0 := \<lparr>localStart = 0, localCountPtr = \<lparr>inc_target = b, inc_tid = 0\<rparr>\<rparr>,
                  1 := \<lparr>localStart = 0, localCountPtr = \<lparr>inc_target = b, inc_tid = 1\<rparr>\<rparr>,
                  2 := \<lparr>localStart = 0, localCountPtr = \<lparr>inc_target = b, inc_tid = 2\<rparr>\<rparr>),
              L2_BarrierWithSync_Init b s0)"
  have i: "run_calls b [(0, Call_InitInThread 0), (1, Call_InitInThread 1), (2, Call_InitInThread 2)]
             (hs, L2_BarrierWithSync_Init b s0) = Some ?st"
    by (simp add: exec_call_cases)
  have "round_begins b 0 ?st" by (simp add: round_begins_def bound_to_def Init_simps)
  from typical_rounds_run[OF this, of R] obtain st' where
    "run_calls b (concat (replicate R typical_round)) ?st = Some st'"
    "round_begins b (of_nat R * 2) st'" by auto
  with i show ?thesis
    unfolding typical_rounds_def run_calls_append by (simp add: round_begins_def)
qed

text \<open>
  Claim C7, as the code has it.  After \<open>InitInThread\<close>, a thread whose calls all use the
  round size \<open>n\<close>, in any interleaving with the calls of the others and without
  initialising again, has \<open>localStart = r * n\<close> in 64-bit arithmetic after its \<open>r\<close>-th
  \<open>Reset\<close>, \<open>WaitAndReset\<close> or \<open>Barrier\<close> call (as a number, when \<open>n \<ge> 0\<close> and \<open>r * n < 2^64\<close>).
  \<open>b.start \<ge> localStart\<close> holds when its \<open>WaitAndReset\<close> or \<open>Barrier\<close> call returns; it is not
  promised after a \<open>Reset\<close>, which does not wait.  The barrier and the handles serve any
  number \<open>R\<close> of rounds of the typical sequence with no call of \<open>Init\<close> or \<open>InitInThread\<close>
  between them.
\<close>

theorem rounds_advance_localStart:
  assumes "run_calls b ((th, Call_InitInThread tid) # cs) (hs, s) = Some (hs', s')"
    and "uses_round_size th n cs"
  shows "localStart (hs' th) = of_nat (rounds_of th cs) * scast n \<and>
         (0 \<le> sint n \<and> rounds_of th cs * nat (sint n) < 2 ^ 64
            \<longrightarrow> unat (localStart (hs' th)) = rounds_of th cs * nat (sint n)) \<and>
         (cs \<noteq> [] \<and> fst (last cs) = th \<and> waits (snd (last cs))
            \<longrightarrow> start_ge_localStart b th (hs', s')) \<and>
         (\<exists>st. run_calls b (typical_rounds R) (hs, L2_BarrierWithSync_Init b s0) = Some st \<and>
               localStart (fst st 0) = of_nat R * 2 \<and> localStart (fst st 1) = of_nat R * 2 \<and>
               localStart (fst st 2) = of_nat R * 2 \<and>
               start (barrier_at (snd st) b) = of_nat R * 2)"
proof -
  let ?h0 = "\<lparr>localStart = 0, localCountPtr = \<lparr>inc_target = b, inc_tid = tid\<rparr>\<rparr>"
  from assms(1) have r: "run_calls b cs (hs(th := ?h0), s) = Some (hs', s')"
    by (simp add: exec_call_cases)
  from run_calls_localStart[OF r assms(2)]
  have a: "localStart (hs' th) = of_nat (rounds_of th cs) * scast n" by simp
  have b: "unat (localStart (hs' th)) = rounds_of th cs * nat (sint n)"
    if "0 \<le> sint n" "rounds_of th cs * nat (sint n) < 2 ^ 64"
    unfolding a using that by (rule unat_rounds)
  have c: "start_ge_localStart b th (hs', s')"
    if "cs \<noteq> []" "fst (last cs) = th" "waits (snd (last cs))"
    using run_calls_last_waits[OF r that] by (simp add: start_ge_localStart_def)
  from a b c typical_rounds_all_run[of b R hs s0] show ?thesis by blast
qed

text \<open>
  A producer that has arrived and reset in a round of four, before the others arrive, has
  \<open>localStart = 4\<close> while \<open>start\<close> is still 0.
\<close>

theorem rounds_advance_localStart_counterexample:
  "map_option (start_ge_localStart 0 0)
     (run_calls 0 [(0, Call_InitInThread 0), (0, Call_Arrive 4), (0, Call_Reset 4)]
        (\<lambda>th. raw_handle, L2_BarrierWithSync_Init 0 blank_memory))
   = Some False"
  by (simp add: exec_call_cases example_eval start_ge_localStart_def)

theorem rounds_advance_localStart_witness:
  "\<exists>hs' s'.
     run_calls 0 ((2, Call_InitInThread 2) # [(0, Call_InitInThread 0), (1, Call_InitInThread 1)]
                    @ typical_round @ typical_round)
       (\<lambda>th. raw_handle, L2_BarrierWithSync_Init 0 blank_memory) = Some (hs', s') \<and>
     uses_round_size 2 2 ([(0, Call_InitInThread 0), (1, Call_InitInThread 1)]
                            @ typical_round @ typical_round) \<and>
     rounds_of 2 ([(0, Call_InitInThread 0), (1, Call_InitInThread 1)]
                    @ typical_round @ typical_round) = 2 \<and>
     localStart (hs' 2) = 4 \<and> unat (localStart (hs' 2)) = 4 \<and> start (barrier_at s' 0) = 4 \<and>
     start_ge_localStart 0 2 (hs', s')"
proof -
  let ?cs = "[(0, Call_InitInThread 0), (1, Call_InitInThread 1)] @ typical_round @ typical_round"
  let ?st = "(\<lambda>th. raw_handle, L2_BarrierWithSync_Init 0 blank_memory)"
  have "\<exists>hs' s'. run_calls 0 ((2, Call_InitInThread 2) # ?cs) ?st = Some (hs', s') \<and>
                  start (barrier_at s' 0) = 4"
    by (simp add: typical_round_def exec_call_cases example_eval)
  then obtain hs' s' where run: "run_calls 0 ((2, Call_InitInThread 2) # ?cs) ?st = Some (hs', s')"
    and st: "start (barrier_at s' 0) = 4" by blast
  have u: "uses_round_size 2 2 ?cs" by (simp add: uses_round_size_def typical_round_def)
  have r: "rounds_of 2 ?cs = 2" by (simp add: rounds_of_def typical_round_def)
  have l: "?cs \<noteq> [] \<and> fst (last ?cs) = 2 \<and> waits (snd (last ?cs))"
    by (simp add: typical_round_def)
  from rounds_advance_localStart[OF run u, of 0 blank_memory] l
  have "localStart (hs' 2) = of_nat (rounds_of 2 ?cs) * scast (2 :: 32 word)"
    and "0 \<le> sint (2 :: 32 word) \<and> rounds_of 2 ?cs * nat (sint (2 :: 32 word)) < 2 ^ 64
           \<longrightarrow> unat (localStart (hs' 2)) = rounds_of 2 ?cs * nat (sint (2 :: 32 word))"
    and "start_ge_localStart 0 2 (hs', s')"
    by blast+
  then have "localStart (hs' 2) = 4" "unat (localStart (hs' 2)) = 4" "start_ge_localStart 0 2 (hs', s')"
    unfolding r by simp_all
  with run st u r show ?thesis by blast
qed

end
